theory Spec2Isabelle
  imports Main "HOL-Library.Word" "HOL-Library.Sublist"
begin

section \<open>Data model of \<open>tools/poryscript/parser/formattext.go\<close>\<close>

text \<open>
  A Go \<open>string\<close> is a sequence of bytes: it is modelled as \<open>string\<close> (a \<open>char list\<close>,
  one \<open>char\<close> per byte). Go's \<open>int\<close> is the 64-bit machine integer: pixel widths and
  \<open>maxWidth\<close> are \<open>64 word\<close>, added with wrap-around and compared as signed values.
  Byte positions and lengths are \<open>nat\<close>: they are bounded by the length of the text.
\<close>

type_synonym go_int = "64 word"

record Fonts =
  Widths :: "string \<rightharpoonup> go_int"
  MaxLineLength :: go_int

record FontConfig =
  DefaultFontID :: string
  Fonts :: "string \<rightharpoonup> Fonts"

text \<open>
  The only error value \<open>FormatText\<close> builds is the unknown-font error. Its message
  lists the keys of the \<open>Fonts\<close> map in the order of Go's map iteration, which is not
  specified: the model keeps the offending identifier and the set of keys. A slice
  expression out of range panics in Go; the model makes it the value \<open>SliceBounds\<close>.
\<close>

datatype error = UnknownFontID string "string set" | SliceBounds

definition testFontID :: string where
  "testFontID = ''TEST''"

definition fallbackWidth :: go_int where
  "fallbackWidth = 0"

definition bslash :: char where
  "bslash = CHR 0x5C"

definition newline :: char where
  "newline = CHR 0x0A"

section \<open>Runes: what \<open>range\<close> over a string yields, and \<open>string(r)\<close>\<close>

text \<open>
  \<open>for pos, char := range text\<close> decodes UTF-8: each iteration yields the byte position
  and the code point of the next rune; a byte that starts no valid encoding yields
  \<open>RuneError\<close> (U+FFFD) and advances by one byte. \<open>decodeRune\<close> follows
  \<open>utf8.DecodeRuneInString\<close>: the table \<open>first\<close> gives, for a leading byte, the size of
  the encoding and the range accepted for the second byte.
\<close>

type_synonym rune = nat

definition RuneError :: rune where
  "RuneError = 0xFFFD"

definition utf8_first :: "nat \<Rightarrow> nat \<times> nat \<times> nat" where
  "utf8_first b0 =
     (if b0 < 0xC2 then (0, 0, 0)
      else if b0 < 0xE0 then (2, 0x80, 0xBF)
      else if b0 = 0xE0 then (3, 0xA0, 0xBF)
      else if b0 = 0xED then (3, 0x80, 0x9F)
      else if b0 < 0xF0 then (3, 0x80, 0xBF)
      else if b0 = 0xF0 then (4, 0x90, 0xBF)
      else if b0 < 0xF4 then (4, 0x80, 0xBF)
      else if b0 = 0xF4 then (4, 0x80, 0x8F)
      else (0, 0, 0))"

definition byteAt :: "string \<Rightarrow> nat \<Rightarrow> nat" where
  "byteAt s i = of_char (s ! i)"

definition decodeRune :: "string \<Rightarrow> rune \<times> nat" where
  "decodeRune s =
     (if length s < 1 then (RuneError, 0)
      else if byteAt s 0 < 0x80 then (byteAt s 0, 1)
      else
        (case utf8_first (byteAt s 0) of (sz, lo, hi) \<Rightarrow>
           if sz = 0 then (RuneError, 1)
           else if length s < sz then (RuneError, 1)
           else if byteAt s 1 < lo \<or> hi < byteAt s 1 then (RuneError, 1)
           else if sz \<le> 2 then
             ((byteAt s 0 mod 0x20) * 0x40 + byteAt s 1 mod 0x40, 2)
           else if byteAt s 2 < 0x80 \<or> 0xBF < byteAt s 2 then (RuneError, 1)
           else if sz \<le> 3 then
             ((byteAt s 0 mod 0x10) * 0x1000 + (byteAt s 1 mod 0x40) * 0x40
                + byteAt s 2 mod 0x40, 3)
           else if byteAt s 3 < 0x80 \<or> 0xBF < byteAt s 3 then (RuneError, 1)
           else
             ((byteAt s 0 mod 0x08) * 0x40000 + (byteAt s 1 mod 0x40) * 0x1000
                + (byteAt s 2 mod 0x40) * 0x40 + byteAt s 3 mod 0x40, 4)))"

lemma decodeRune_size_pos: "s \<noteq> [] \<Longrightarrow> 0 < snd (decodeRune s)"
  by (cases s) (simp_all add: decodeRune_def split: prod.splits)

lemma utf8_first_size: "utf8_first b = (sz, lo, hi) \<Longrightarrow> sz = 0 \<or> sz = 2 \<or> sz = 3 \<or> sz = 4"
  by (auto simp add: utf8_first_def split: if_splits)

lemma decodeRune_size_le: "snd (decodeRune s) \<le> length s"
proof (cases "utf8_first (byteAt s 0)")
  case (fields sz lo hi)
  from utf8_first_size [OF fields] consider "sz = 0" | "sz = 2" | "sz = 3" | "sz = 4"
    by blast
  then show ?thesis
  proof cases
    case 1
    then show ?thesis by (simp add: decodeRune_def fields Suc_le_eq)
  next
    case 2
    then show ?thesis by (simp add: decodeRune_def fields Suc_le_eq)
  next
    case 3
    then show ?thesis by (simp add: decodeRune_def fields Suc_le_eq)
  next
    case 4
    then show ?thesis by (simp add: decodeRune_def fields Suc_le_eq)
  qed
qed

text \<open>The runes of a string, each with the number of bytes it takes.\<close>

function runes :: "string \<Rightarrow> (rune \<times> nat) list" where
  "runes s = (if s = [] then [] else decodeRune s # runes (drop (snd (decodeRune s)) s))"
  by pat_completeness auto
termination
  by (relation "measure length") (auto simp add: decodeRune_size_pos)

declare runes.simps [simp del]

text \<open>
  \<open>string(r)\<close> is the UTF-8 encoding of the rune (\<open>utf8.EncodeRune\<close>); a surrogate or
  a value beyond U+10FFFF is encoded as U+FFFD.
\<close>

definition encodeRune :: "rune \<Rightarrow> string" where
  "encodeRune r =
     (if r < 0x80 then [char_of r]
      else if r < 0x800 then [char_of (0xC0 + r div 0x40), char_of (0x80 + r mod 0x40)]
      else if (0xD800 \<le> r \<and> r < 0xE000) \<or> 0x10FFFF < r then
        [CHR 0xEF, CHR 0xBF, CHR 0xBD]
      else if r < 0x10000 then
        [char_of (0xE0 + r div 0x1000), char_of (0x80 + (r div 0x40) mod 0x40),
         char_of (0x80 + r mod 0x40)]
      else
        [char_of (0xF0 + r div 0x40000), char_of (0x80 + (r div 0x1000) mod 0x40),
         char_of (0x80 + (r div 0x40) mod 0x40), char_of (0x80 + r mod 0x40)])"

section \<open>Width lookup\<close>

definition isFontIDValid :: "FontConfig \<Rightarrow> string \<Rightarrow> bool" where
  "isFontIDValid fc fontID = (Fonts fc fontID \<noteq> None)"

definition readWidthFromFontConfig :: "FontConfig \<Rightarrow> string \<Rightarrow> string \<Rightarrow> go_int" where
  "readWidthFromFontConfig fc val fontID =
     (case Fonts fc fontID of
        None \<Rightarrow> fallbackWidth
      | Some font \<Rightarrow>
          (case Widths font val of
             None \<Rightarrow>
               (case Widths font ''default'' of
                  None \<Rightarrow> fallbackWidth
                | Some defaultWidth \<Rightarrow> defaultWidth)
           | Some width \<Rightarrow> width))"

definition getRunePixelWidth :: "FontConfig \<Rightarrow> rune \<Rightarrow> string \<Rightarrow> go_int" where
  "getRunePixelWidth fc r fontID =
     (if fontID = testFontID then 10
      else readWidthFromFontConfig fc (encodeRune r) fontID)"

definition getControlCodePixelWidth :: "FontConfig \<Rightarrow> string \<Rightarrow> string \<Rightarrow> go_int" where
  "getControlCodePixelWidth fc code fontID =
     (if fontID = testFontID then 100
      else readWidthFromFontConfig fc code fontID)"

section \<open>Control codes: the regular expression \<open>{[^}]*}\<close>\<close>

text \<open>
  A match of \<open>{[^}]*}\<close> starts at an opening brace and ends at the first closing brace
  after it; matches are searched from left to right and do not overlap. An opening brace
  with no closing brace after it starts no match. \<open>findClose cs\<close> is the index of the
  first closing brace of \<open>cs\<close>. \<open>FindAllStringIndex\<close> returns the pairs of start and end
  positions, \<open>ReplaceAllString\<close> with the empty replacement deletes the matches.
\<close>

fun findClose :: "string \<Rightarrow> nat option" where
  "findClose [] = None"
| "findClose (c # cs) =
     (if c = CHR ''}'' then Some 0 else map_option Suc (findClose cs))"

lemma findClose_less: "findClose cs = Some k \<Longrightarrow> k < length cs"
  by (induction cs arbitrary: k) (auto split: if_splits)

function FindAllStringIndex :: "nat \<Rightarrow> string \<Rightarrow> (nat \<times> nat) list" where
  "FindAllStringIndex off [] = []"
| "FindAllStringIndex off (c # cs) =
     (if c = CHR ''{'' then
        (case findClose cs of
           Some k \<Rightarrow> (off, off + k + 2) # FindAllStringIndex (off + k + 2) (drop (Suc k) cs)
         | None \<Rightarrow> FindAllStringIndex (Suc off) cs)
      else FindAllStringIndex (Suc off) cs)"
  by pat_completeness auto
termination
  by (relation "measure (\<lambda>(off, s). length s)") auto

function ReplaceAllString :: "string \<Rightarrow> string" where
  "ReplaceAllString [] = []"
| "ReplaceAllString (c # cs) =
     (if c = CHR ''{'' then
        (case findClose cs of
           Some k \<Rightarrow> ReplaceAllString (drop (Suc k) cs)
         | None \<Rightarrow> c # ReplaceAllString cs)
      else c # ReplaceAllString cs)"
  by pat_completeness auto
termination
  by (relation "measure length") auto

definition processControlCodes :: "FontConfig \<Rightarrow> string \<Rightarrow> string \<Rightarrow> string \<times> go_int" where
  "processControlCodes fc word fontID =
     (let positions = FindAllStringIndex 0 word;
          width = foldl (\<lambda>width (p0, p1).
                    width + getControlCodePixelWidth fc (take (p1 - p0) (drop p0 word)) fontID)
                  0 positions;
          strippedWord = ReplaceAllString word
      in (strippedWord, width))"

definition getWordPixelWidth :: "FontConfig \<Rightarrow> string \<Rightarrow> string \<Rightarrow> go_int" where
  "getWordPixelWidth fc word fontID =
     (case processControlCodes fc word fontID of
        (word', wordWidth) \<Rightarrow>
          foldl (\<lambda>wordWidth (r, sz). wordWidth + getRunePixelWidth fc r fontID)
            wordWidth (runes word'))"

definition isLineBreak :: "string \<Rightarrow> bool" where
  "isLineBreak word =
     (word = [bslash, CHR ''n''] \<or> word = [bslash, CHR ''l''] \<or> word = [bslash, CHR ''p''])"

definition isParagraphBreak :: "string \<Rightarrow> bool" where
  "isParagraphBreak word = (word = [bslash, CHR ''p''])"

section \<open>The tokenizer \<open>getNextWord\<close>\<close>

text \<open>
  The local variables of \<open>getNextWord\<close> are a record; the body of its loop is
  \<open>gnw_step\<close>, which either returns (\<open>Inl\<close>) or gives the variables for the next
  iteration (\<open>Inr\<close>). \<open>substr text lo hi\<close> is the slice \<open>text[lo:hi]\<close>.
\<close>

record gnw_state =
  escape :: bool
  endPos :: nat
  startPos :: nat
  foundNonSpace :: bool
  foundRegularRune :: bool
  endOnNext :: bool
  controlCodeLevel :: nat

type_synonym gnw_result = "nat \<times> string \<times> error option"

definition substr :: "string \<Rightarrow> nat \<Rightarrow> nat \<Rightarrow> string option" where
  "substr text lo hi =
     (if lo \<le> hi \<and> hi \<le> length text then Some (take (hi - lo) (drop lo text)) else None)"

definition ret :: "nat \<Rightarrow> string option \<Rightarrow> gnw_result" where
  "ret n w = (case w of Some w' \<Rightarrow> (n, w', None) | None \<Rightarrow> (0, [], Some SliceBounds))"

definition gnw_init :: gnw_state where
  "gnw_init = \<lparr>escape = False, endPos = 0, startPos = 0, foundNonSpace = False,
     foundRegularRune = False, endOnNext = False, controlCodeLevel = 0\<rparr>"

definition gnw_step :: "string \<Rightarrow> gnw_state \<Rightarrow> nat \<Rightarrow> rune \<Rightarrow> gnw_result + gnw_state" where
  "gnw_step text s p c =
     (if endOnNext s then Inl (ret p (substr text (startPos s) p))
      else if escape s \<and> (c = of_char CHR ''l'' \<or> c = of_char CHR ''n'' \<or> c = of_char CHR ''p'') then
        (if foundRegularRune s then Inl (ret (endPos s) (substr text (startPos s) (endPos s)))
         else Inr (s\<lparr>endOnNext := True\<rparr>))
      else if c = of_char bslash \<and> controlCodeLevel s = 0 then
        Inr (s\<lparr>escape := True,
               startPos := (if \<not> foundRegularRune s then p else startPos s),
               foundNonSpace := True,
               endPos := p\<rparr>)
      else if c = of_char CHR '' '' then
        (if foundNonSpace s \<and> controlCodeLevel s = 0 then
           Inl (ret p (substr text (startPos s) p))
         else Inr (s\<lparr>escape := False\<rparr>))
      else
        Inr (s\<lparr>startPos := (if \<not> foundNonSpace s then p else startPos s),
               foundRegularRune := True,
               foundNonSpace := True,
               controlCodeLevel :=
                 (if c = of_char CHR ''{'' then controlCodeLevel s + 1
                  else if c = of_char CHR ''}'' then
                    (if controlCodeLevel s > 0 then controlCodeLevel s - 1
                     else controlCodeLevel s)
                  else controlCodeLevel s),
               escape := False\<rparr>))"

fun gnw_loop :: "string \<Rightarrow> gnw_state \<Rightarrow> nat \<Rightarrow> (rune \<times> nat) list \<Rightarrow> gnw_result" where
  "gnw_loop text s p [] =
     (if \<not> foundNonSpace s then (length text, [], None)
      else ret (length text) (substr text (startPos s) (length text)))"
| "gnw_loop text s p ((c, sz) # rs) =
     (case gnw_step text s p c of
        Inl r \<Rightarrow> r
      | Inr s' \<Rightarrow> gnw_loop text s' (p + sz) rs)"

definition getNextWord :: "string \<Rightarrow> gnw_result" where
  "getNextWord text = gnw_loop text gnw_init 0 (runes text)"


subsection \<open>The tokenizer never fails and consumes what it returns\<close>

text \<open>
  \<open>gnw_inv\<close> relates the variables of the loop to the position \<open>p\<close> of the rune about
  to be read; \<open>gnw_ok\<close> is what every return of \<open>getNextWord\<close> satisfies: no error,
  at most the whole text consumed, a non-empty word consumes at least one byte, an empty word
  means the text is exhausted, and the word is a slice of the text that ends where
  consumption ends.
\<close>

definition gnw_inv :: "string \<Rightarrow> gnw_state \<Rightarrow> nat \<Rightarrow> bool" where
  "gnw_inv text s p \<longleftrightarrow>
     p \<le> length text \<and>
     (foundNonSpace s \<longrightarrow> startPos s < p) \<and>
     (foundRegularRune s \<longrightarrow> foundNonSpace s) \<and>
     (escape s \<longrightarrow> foundNonSpace s \<and> endPos s < p \<and>
        (foundRegularRune s \<longrightarrow> startPos s < endPos s)) \<and>
     (endOnNext s \<longrightarrow> foundNonSpace s)"

definition gnw_ok :: "string \<Rightarrow> gnw_result \<Rightarrow> bool" where
  "gnw_ok text r \<longleftrightarrow>
     (case r of (n, w, e) \<Rightarrow>
        e = None \<and> n \<le> length text \<and> (w \<noteq> [] \<longrightarrow> 0 < n) \<and> (w = [] \<longrightarrow> n = length text) \<and>
        (\<exists>k\<le>n. w = take (n - k) (drop k text)))"

lemma gnw_ok_ret:
  "lo < hi \<Longrightarrow> hi \<le> length text \<Longrightarrow> gnw_ok text (ret hi (substr text lo hi))"
  unfolding gnw_ok_def ret_def substr_def
  by (auto intro!: exI [of _ lo])

lemma gnw_ok_empty: "gnw_ok text (length text, [], None)"
  by (auto simp add: gnw_ok_def)

lemma gnw_step_inv:
  assumes inv: "gnw_inv text s p" and "p < length text" and "p + sz \<le> length text" and "0 < sz"
  shows "case gnw_step text s p c of Inl r \<Rightarrow> gnw_ok text r | Inr s' \<Rightarrow> gnw_inv text s' (p + sz)"
proof -
  consider (eon) "endOnNext s"
    | (brk) "\<not> endOnNext s" "escape s \<and> (c = of_char CHR ''l'' \<or> c = of_char CHR ''n'' \<or> c = of_char CHR ''p'')"
    | (esc) "\<not> endOnNext s" "\<not> (escape s \<and> (c = of_char CHR ''l'' \<or> c = of_char CHR ''n'' \<or> c = of_char CHR ''p''))"
        "c = of_char bslash \<and> controlCodeLevel s = 0"
    | (spc) "\<not> endOnNext s" "\<not> (escape s \<and> (c = of_char CHR ''l'' \<or> c = of_char CHR ''n'' \<or> c = of_char CHR ''p''))"
        "\<not> (c = of_char bslash \<and> controlCodeLevel s = 0)" "c = of_char CHR '' ''"
    | (reg) "\<not> endOnNext s" "\<not> (escape s \<and> (c = of_char CHR ''l'' \<or> c = of_char CHR ''n'' \<or> c = of_char CHR ''p''))"
        "\<not> (c = of_char bslash \<and> controlCodeLevel s = 0)" "c \<noteq> of_char CHR '' ''"
    by blast
  then show ?thesis
  proof cases
    case eon
    with assms show ?thesis
      by (simp add: gnw_step_def gnw_inv_def gnw_ok_ret)
  next
    case brk
    with assms show ?thesis
      by (cases "foundRegularRune s") (auto simp add: gnw_step_def gnw_inv_def gnw_ok_ret)
  next
    case esc
    with assms show ?thesis
      by (auto simp add: gnw_step_def gnw_inv_def bslash_def)
  next
    case spc
    with assms show ?thesis
      by (cases "foundNonSpace s \<and> controlCodeLevel s = 0")
        (auto simp add: gnw_step_def gnw_inv_def gnw_ok_ret bslash_def)
  next
    case reg
    with assms show ?thesis
      by (auto simp add: gnw_step_def gnw_inv_def)
  qed
qed

lemma runes_sizes: "sum_list (map snd (runes s)) = length s"
proof (induction s rule: runes.induct)
  case (1 s)
  show ?case
  proof (cases "s = []")
    case True
    then show ?thesis by (simp add: runes.simps)
  next
    case False
    with 1 decodeRune_size_le [of s] show ?thesis
      by (subst runes.simps) simp
  qed
qed

lemma runes_size_pos: "x \<in> set (runes s) \<Longrightarrow> 0 < snd x"
proof (induction s rule: runes.induct)
  case (1 s)
  show ?case
  proof (cases "s = []")
    case True
    with 1(2) show ?thesis by (simp add: runes.simps)
  next
    case False
    with 1 decodeRune_size_pos [of s] show ?thesis
      by (subst (asm) (2) runes.simps) auto
  qed
qed

lemma gnw_loop_ok:
  assumes "gnw_inv text s p" and "p + sum_list (map snd rs) = length text"
    and "\<forall>x\<in>set rs. 0 < snd x"
  shows "gnw_ok text (gnw_loop text s p rs)"
  using assms
proof (induction rs arbitrary: s p)
  case Nil
  then show ?case
    by (simp add: gnw_inv_def gnw_ok_ret gnw_ok_empty)
next
  case (Cons x rs)
  obtain c sz where x: "x = (c, sz)" by (cases x)
  from Cons.prems x have sz: "0 < sz" "p + sz \<le> length text" "p < length text" by auto
  from gnw_step_inv [OF Cons.prems(1) sz(3) sz(2) sz(1), of c]
  show ?case
  proof (cases "gnw_step text s p c")
    case (Inl r)
    with gnw_step_inv [OF Cons.prems(1) sz(3) sz(2) sz(1), of c] show ?thesis
      by (simp add: x)
  next
    case (Inr s')
    with gnw_step_inv [OF Cons.prems(1) sz(3) sz(2) sz(1), of c]
    have "gnw_inv text s' (p + sz)" by simp
    moreover from Cons.prems x have "p + sz + sum_list (map snd rs) = length text" by simp
    moreover from Cons.prems have "\<forall>x\<in>set rs. 0 < snd x" by simp
    ultimately have "gnw_ok text (gnw_loop text s' (p + sz) rs)" by (rule Cons.IH)
    with Inr show ?thesis by (simp add: x)
  qed
qed

lemma getNextWord_ok: "gnw_ok text (getNextWord text)"
  unfolding getNextWord_def
  by (rule gnw_loop_ok) (auto simp add: gnw_inv_def gnw_init_def runes_sizes runes_size_pos)


lemma getNextWord_result:
  "\<exists>n w. getNextWord text = (n, w, None) \<and> n \<le> length text \<and> (w \<noteq> [] \<longrightarrow> 0 < n)
     \<and> (w = [] \<longrightarrow> n = length text) \<and> (\<exists>k\<le>n. w = take (n - k) (drop k text))"
  using getNextWord_ok [of "text"] unfolding gnw_ok_def
  by (cases "getNextWord text") auto

section \<open>The wrap engine \<open>FormatText\<close>\<close>

text \<open>
  The variables of \<open>FormatText\<close> that survive an iteration are a record; \<open>pos\<close> is
  passed beside it. \<open>fmt_body\<close> is the body of the loop once a non-empty word has been
  read: the branch for an authored break and the branch for a word.
\<close>

record fmt_state =
  formattedSb :: string
  curLineSb :: string
  curWidth :: go_int
  isFirstLine :: bool
  isFirstWord :: bool

definition fmt_init :: fmt_state where
  "fmt_init = \<lparr>formattedSb = [], curLineSb = [], curWidth = 0, isFirstLine = True,
     isFirstWord = True\<rparr>"

definition wordWidthOf :: "FontConfig \<Rightarrow> string \<Rightarrow> string \<Rightarrow> fmt_state \<Rightarrow> go_int" where
  "wordWidthOf fc fontID word st =
     (if \<not> isFirstWord st then 0 + getRunePixelWidth fc (of_char CHR '' '') fontID else 0)
       + getWordPixelWidth fc word fontID"

definition fmt_body :: "FontConfig \<Rightarrow> go_int \<Rightarrow> string \<Rightarrow> string \<Rightarrow> fmt_state \<Rightarrow> fmt_state" where
  "fmt_body fc maxWidth fontID word st =
     (if isLineBreak word then
        st\<lparr>curWidth := 0,
           formattedSb := formattedSb st @ curLineSb st @ word @ [newline],
           isFirstLine := (if isParagraphBreak word then True else False),
           isFirstWord := True,
           curLineSb := []\<rparr>
      else
        (let wordWidth = wordWidthOf fc fontID word st in
         if sint maxWidth < sint (curWidth st + wordWidth) \<and> length (curLineSb st) > 0 then
           st\<lparr>formattedSb := formattedSb st @ curLineSb st
                  @ (if isFirstLine st then [bslash, CHR ''n''] else [bslash, CHR ''l''])
                  @ [newline],
              isFirstLine := False,
              isFirstWord := False,
              curLineSb := word,
              curWidth := wordWidth\<rparr>
         else
           st\<lparr>curWidth := curWidth st + wordWidth,
              curLineSb := curLineSb st @ (if \<not> isFirstWord st then [CHR '' ''] else []) @ word,
              isFirstWord := False\<rparr>))"

function FormatText_loop ::
  "FontConfig \<Rightarrow> string \<Rightarrow> go_int \<Rightarrow> string \<Rightarrow> fmt_state \<Rightarrow> nat \<Rightarrow> error + fmt_state" where
  "FormatText_loop fc text maxWidth fontID st pos =
     (if pos < length text then
        (case getNextWord (drop pos text) of
           (endPos', word, err) \<Rightarrow>
             (case err of
                Some e \<Rightarrow> Inl e
              | None \<Rightarrow>
                  if length word = 0 then Inr st
                  else FormatText_loop fc text maxWidth fontID
                         (fmt_body fc maxWidth fontID word st) (pos + endPos')))
      else Inr st)"
  by pat_completeness auto
termination
proof (relation "measure (\<lambda>(fc, text, maxWidth, fontID, st, pos). length text - pos)")
  show "wf (measure (\<lambda>(fc, text, maxWidth, fontID, st, pos). length text - pos))"
    by simp
next
  fix fc :: FontConfig and t :: string and maxWidth :: go_int and fontID :: string
    and st :: fmt_state and pos :: nat and n :: nat
    and y :: "string \<times> error option" and word :: string and err :: "error option"
  assume pos: "pos < length t" and xy: "(n, y) = getNextWord (drop pos t)"
    and y: "(word, err) = y" and err: "err = None"
    and word: "length word \<noteq> 0"
  from xy y have "getNextWord (drop pos t) = (n, word, err)" by simp
  with word getNextWord_result [of "drop pos t"] have "0 < n"
    by auto
  with pos show "((fc, t, maxWidth, fontID, fmt_body fc maxWidth fontID word st, pos + n),
      (fc, t, maxWidth, fontID, st, pos))
    \<in> measure (\<lambda>(fc, text, maxWidth, fontID, st, pos). length text - pos)"
    by simp
qed

declare FormatText_loop.simps [simp del]

definition ReplaceAll_newline :: "string \<Rightarrow> string" where
  "ReplaceAll_newline text = map (\<lambda>c. if c = newline then CHR '' '' else c) text"

definition FormatText ::
  "FontConfig \<Rightarrow> string \<Rightarrow> go_int \<Rightarrow> string \<Rightarrow> string \<times> error option" where
  "FormatText fc text maxWidth fontID =
     (if \<not> isFontIDValid fc fontID \<and> length fontID > 0 \<and> fontID \<noteq> testFontID then
        ([], Some (UnknownFontID fontID (dom (Fonts fc))))
      else
        (case FormatText_loop fc (ReplaceAll_newline text) maxWidth fontID fmt_init 0 of
           Inl e \<Rightarrow> ([], Some e)
         | Inr st \<Rightarrow>
             (formattedSb st @ (if length (curLineSb st) > 0 then curLineSb st else []), None)))"

section \<open>The words \<open>FormatText\<close> reads\<close>

text \<open>
  \<open>tokens_loop\<close> is the loop of \<open>FormatText\<close> with the body left out: the words that the
  successive calls of \<open>getNextWord\<close> return, in order. \<open>emitted\<close> is the text written so
  far, the output followed by the line buffer; \<open>sepOf\<close> is what the body writes before a
  word and \<open>trailOf\<close> what it writes after it.
\<close>

function tokens_loop :: "string \<Rightarrow> nat \<Rightarrow> string list" where
  "tokens_loop t pos =
     (if pos < length t then
        (case getNextWord (drop pos t) of
           (endPos', word, err) \<Rightarrow>
             (case err of
                Some e \<Rightarrow> []
              | None \<Rightarrow>
                  if length word = 0 then []
                  else word # tokens_loop t (pos + endPos')))
      else [])"
  by pat_completeness auto
termination
proof (relation "measure (\<lambda>(t, pos). length t - pos)")
  show "wf (measure (\<lambda>(t, pos). length t - pos))"
    by simp
next
  fix t :: string and pos :: nat and n :: nat
    and y :: "string \<times> error option" and word :: string and err :: "error option"
  assume pos: "pos < length t" and xy: "(n, y) = getNextWord (drop pos t)"
    and y: "(word, err) = y" and err: "err = None"
    and word: "length word \<noteq> 0"
  from xy y have "getNextWord (drop pos t) = (n, word, err)" by simp
  with word getNextWord_result [of "drop pos t"] have "0 < n"
    by auto
  with pos show "((t, pos + n), (t, pos)) \<in> measure (\<lambda>(t, pos). length t - pos)"
    by simp
qed

declare tokens_loop.simps [simp del]

definition tokenize :: "string \<Rightarrow> string list" where
  "tokenize t = tokens_loop (ReplaceAll_newline t) 0"

definition emitted :: "fmt_state \<Rightarrow> string" where
  "emitted st = formattedSb st @ curLineSb st"

definition sepOf :: "FontConfig \<Rightarrow> go_int \<Rightarrow> string \<Rightarrow> string \<Rightarrow> fmt_state \<Rightarrow> string" where
  "sepOf fc maxWidth fontID w st =
     (if isLineBreak w then []
      else if sint maxWidth < sint (curWidth st + wordWidthOf fc fontID w st)
              \<and> length (curLineSb st) > 0 then
        (if isFirstLine st then [bslash, CHR ''n''] else [bslash, CHR ''l'']) @ [newline]
      else if \<not> isFirstWord st then [CHR '' '']
      else [])"

definition trailOf :: "string \<Rightarrow> string" where
  "trailOf w = (if isLineBreak w then [newline] else [])"

section \<open>A word as glyph runs and control codes\<close>

text \<open>
  The description of a word that the width of a word is stated for. A word is a list of
  segments: a glyph run, given by its characters (Unicode scalar values, written in UTF-8
  by \<open>encodeRune\<close>), or a control code, given by the text between its braces.
  \<open>segmentWidth\<close> is one lookup per character of a glyph run and one lookup for a control
  code, under its text with the braces. \<open>codeTexts\<close> are the texts of the matches that
  \<open>processControlCodes\<close> looks up.
\<close>

definition codeTexts :: "string \<Rightarrow> string list" where
  "codeTexts word = map (\<lambda>(p0, p1). take (p1 - p0) (drop p0 word)) (FindAllStringIndex 0 word)"

definition isScalar :: "rune \<Rightarrow> bool" where
  "isScalar r \<longleftrightarrow> r < 0xD800 \<or> (0xE000 \<le> r \<and> r \<le> 0x10FFFF)"

definition encodeRunes :: "rune list \<Rightarrow> string" where
  "encodeRunes rs = concat (map encodeRune rs)"

datatype segment = Glyphs "rune list" | ControlCode string

fun renderSegment :: "segment \<Rightarrow> string" where
  "renderSegment (Glyphs rs) = encodeRunes rs"
| "renderSegment (ControlCode body) = CHR ''{'' # body @ [CHR ''}'']"

definition renderSegments :: "segment list \<Rightarrow> string" where
  "renderSegments segs = concat (map renderSegment segs)"

fun segmentOK :: "segment \<Rightarrow> bool" where
  "segmentOK (Glyphs rs) = (\<forall>r \<in> set rs. isScalar r \<and> r \<noteq> 0x7B)"
| "segmentOK (ControlCode body) = (CHR ''}'' \<notin> set body)"

fun segmentWidth :: "FontConfig \<Rightarrow> string \<Rightarrow> segment \<Rightarrow> go_int" where
  "segmentWidth fc fontID (Glyphs rs) = sum_list (map (\<lambda>r. getRunePixelWidth fc r fontID) rs)"
| "segmentWidth fc fontID (ControlCode body) =
     getControlCodePixelWidth fc (CHR ''{'' # body @ [CHR ''}'']) fontID"

fun glyphsOf :: "segment list \<Rightarrow> rune list" where
  "glyphsOf [] = []"
| "glyphsOf (Glyphs rs # segs) = rs @ glyphsOf segs"
| "glyphsOf (ControlCode body # segs) = glyphsOf segs"

fun codesOf :: "segment list \<Rightarrow> string list" where
  "codesOf [] = []"
| "codesOf (Glyphs rs # segs) = codesOf segs"
| "codesOf (ControlCode body # segs) = (CHR ''{'' # body @ [CHR ''}'']) # codesOf segs"

section \<open>The words of a text\<close>






section \<open>Wrapping a wrapped text again\<close>




section \<open>Evaluation on concrete inputs\<close>

text \<open>
  Two configurations for concrete inputs: one with no font at all, and one with a font
  that has widths for \<open>a\<close>, a control code and \<open>default\<close>, beside a font with no
  \<open>default\<close> entry.
\<close>

definition emptyConfig :: FontConfig where
  "emptyConfig = \<lparr>DefaultFontID = [], Fonts = Map.empty\<rparr>"

definition sampleConfig :: FontConfig where
  "sampleConfig = \<lparr>DefaultFontID = ''1_latin'',
     Fonts = [''1_latin'' \<mapsto> \<lparr>Widths = [''a'' \<mapsto> 6, ''default'' \<mapsto> 8, ''{PLAYER}'' \<mapsto> 42], MaxLineLength = 208\<rparr>,
              ''2_bare'' \<mapsto> \<lparr>Widths = ['' '' \<mapsto> 3], MaxLineLength = 100\<rparr>]\<rparr>"

definition accentConfig :: FontConfig where
  "accentConfig = \<lparr>DefaultFontID = ''3_accent'',
     Fonts = [''3_accent'' \<mapsto> \<lparr>Widths = [[CHR 0xC3, CHR 0xA9] \<mapsto> 7, ''default'' \<mapsto> 8,
                 [CHR 0xEF, CHR 0xBF, CHR 0xBD] \<mapsto> 5], MaxLineLength = 208\<rparr>]\<rparr>"

text \<open>Rewrite rules that evaluate the tokenizer and the engine on ASCII text.\<close>

lemma runes_Nil: "runes [] = []"
  by (simp add: runes.simps)

lemma runes_ascii: "of_char c < (0x80::nat) \<Longrightarrow> runes (c # cs) = (of_char c, 1) # runes cs"
  by (subst runes.simps) (simp add: decodeRune_def byteAt_def)

lemmas gnw_eval = getNextWord_def gnw_init_def gnw_step_def ret_def substr_def runes_Nil
  runes_ascii bslash_def

lemmas tok_eval = tokenize_def tokens_loop.simps ReplaceAll_newline_def newline_def

lemmas fmt_eval = FormatText_def FormatText_loop.simps fmt_body_def fmt_init_def
  ReplaceAll_newline_def isLineBreak_def isParagraphBreak_def wordWidthOf_def
  getWordPixelWidth_def processControlCodes_def getRunePixelWidth_def
  getControlCodePixelWidth_def testFontID_def newline_def

lemma runes_high:
  "(0x80::nat) \<le> of_char c \<Longrightarrow>
   runes (c # cs) = decodeRune (c # cs) # runes (drop (snd (decodeRune (c # cs))) (c # cs))"
  by (subst runes.simps) simp

lemmas rune_eval = runes_Nil runes_ascii runes_high decodeRune_def utf8_first_def byteAt_def
  RuneError_def

subsection \<open>Control codes and the loop of \<open>FormatText\<close>\<close>

lemma foldl_add_sum_list:
  fixes a :: go_int
  shows "foldl (\<lambda>w x. w + f x) a xs = a + sum_list (map f xs)"
  by (induction xs arbitrary: a) (simp_all add: add.assoc)

lemma findClose_Some:
  "findClose cs = Some k \<Longrightarrow> k < length cs \<and> cs ! k = CHR ''}'' \<and> CHR ''}'' \<notin> set (take k cs)"
proof (induction cs arbitrary: k)
  case Nil
  then show ?case by simp
next
  case (Cons c cs)
  show ?case
  proof (cases "c = CHR ''}''")
    case True
    with Cons.prems show ?thesis by simp
  next
    case False
    with Cons.prems obtain j where j: "findClose cs = Some j" "k = Suc j"
      by auto
    from Cons.IH [OF j(1)] False j(2) show ?thesis by simp
  qed
qed

lemma FindAllStringIndex_span:
  "(p0, p1) \<in> set (FindAllStringIndex off s) \<Longrightarrow>
     off \<le> p0 \<and> p0 < p1 \<and> p1 \<le> off + length s \<and>
     (\<exists>mid. take (p1 - p0) (drop (p0 - off) s) = CHR ''{'' # mid @ [CHR ''}''] \<and> CHR ''}'' \<notin> set mid)"
proof (induction off s rule: FindAllStringIndex.induct)
  case (1 off)
  then show ?case by simp
next
  case (2 off c cs)
  show ?case
  proof (cases "c = CHR ''{''")
    case False
    with "2.prems" have mem: "(p0, p1) \<in> set (FindAllStringIndex (Suc off) cs)" by simp
    from "2.IH"(3) [OF False mem]
    have ih: "Suc off \<le> p0" "p0 < p1" "p1 \<le> Suc off + length cs"
      and ex: "\<exists>mid. take (p1 - p0) (drop (p0 - Suc off) cs) = CHR ''{'' # mid @ [CHR ''}''] \<and> CHR ''}'' \<notin> set mid"
      by auto
    from ih(1) have "p0 - off = Suc (p0 - Suc off)" by arith
    then have "drop (p0 - off) (c # cs) = drop (p0 - Suc off) cs" by simp
    with ih ex show ?thesis by simp
  next
    case True
    show ?thesis
    proof (cases "findClose cs")
      case None
      with True "2.prems" have mem: "(p0, p1) \<in> set (FindAllStringIndex (Suc off) cs)" by simp
      from "2.IH"(1) [OF True None mem]
      have ih: "Suc off \<le> p0" "p0 < p1" "p1 \<le> Suc off + length cs"
        and ex: "\<exists>mid. take (p1 - p0) (drop (p0 - Suc off) cs) = CHR ''{'' # mid @ [CHR ''}''] \<and> CHR ''}'' \<notin> set mid"
        by auto
      from ih(1) have "p0 - off = Suc (p0 - Suc off)" by arith
      then have "drop (p0 - off) (c # cs) = drop (p0 - Suc off) cs" by simp
      with ih ex show ?thesis by simp
    next
      case (Some k)
      from findClose_Some [OF Some]
      have k: "k < length cs" "cs ! k = CHR ''}''" "CHR ''}'' \<notin> set (take k cs)" by auto
      from True Some "2.prems"
      consider (hd) "p0 = off" "p1 = off + k + 2"
        | (tl) "(p0, p1) \<in> set (FindAllStringIndex (off + k + 2) (drop (Suc k) cs))"
        by auto
      then show ?thesis
      proof cases
        case hd
        from k(1,2) have "take (Suc k) cs = take k cs @ [CHR ''}'']"
          by (simp add: take_Suc_conv_app_nth)
        with hd True k show ?thesis by simp
      next
        case tl
        from "2.IH"(2) [OF True Some tl]
        have ih: "off + k + 2 \<le> p0" "p0 < p1" "p1 \<le> off + k + 2 + length (drop (Suc k) cs)"
          and ex: "\<exists>mid. take (p1 - p0) (drop (p0 - (off + k + 2)) (drop (Suc k) cs))
                      = CHR ''{'' # mid @ [CHR ''}''] \<and> CHR ''}'' \<notin> set mid"
          by auto
        from ih(1) have d: "p0 - off = Suc (p0 - (off + k + 2) + Suc k)" by arith
        have "drop (p0 - off) (c # cs) = drop (p0 - (off + k + 2)) (drop (Suc k) cs)"
          by (simp only: d drop_Suc_Cons drop_drop)
        with ih ex k(1) show ?thesis by simp
      qed
    qed
  qed
qed


lemma ReplaceAllString_length:
  "length (ReplaceAllString s) + sum_list (map (\<lambda>(p0, p1). p1 - p0) (FindAllStringIndex off s))
     = length s"
proof (induction off s rule: FindAllStringIndex.induct)
  case (1 off)
  then show ?case by simp
next
  case (2 off c cs)
  show ?case
  proof (cases "c = CHR ''{''")
    case False
    with "2.IH"(3) show ?thesis by simp
  next
    case True
    show ?thesis
    proof (cases "findClose cs")
      case None
      with True "2.IH"(1) show ?thesis by simp
    next
      case (Some k)
      from findClose_Some [OF Some] have "k < length cs" by simp
      with True Some "2.IH"(2) [OF True Some] show ?thesis by simp
    qed
  qed
qed

lemma FormatText_loop_Inr: "\<exists>st'. FormatText_loop fc t maxWidth fontID st pos = Inr st'"
proof (induction fc t maxWidth fontID st pos rule: FormatText_loop.induct)
  case (1 fc t maxWidth fontID st pos)
  show ?case
  proof (cases "pos < length t")
    case False
    then show ?thesis by (simp add: FormatText_loop.simps)
  next
    case True
    from getNextWord_result [of "drop pos t"]
    obtain n w where nw: "getNextWord (drop pos t) = (n, w, None)" by blast
    show ?thesis
    proof (cases "w = []")
      case True
      with \<open>pos < length t\<close> nw show ?thesis
        by (subst FormatText_loop.simps) simp
    next
      case False
      with "1.IH" [OF True nw [symmetric] refl refl] 
      obtain st' where "FormatText_loop fc t maxWidth fontID (fmt_body fc maxWidth fontID w st) (pos + n) = Inr st'"
        by auto
      with True nw False show ?thesis
        by (subst FormatText_loop.simps) simp
    qed
  qed
qed

subsection \<open>Reading the text rune by rune or byte by byte\<close>


lemma mod_window:
  fixes b :: nat
  assumes "k * m \<le> b" and "b < k * m + m"
  shows "b mod m = b - k * m"
proof -
  from assms(1) have "b = (b - k * m) + k * m" by simp
  then have "b mod m = ((b - k * m) + k * m) mod m" by (rule arg_cong)
  also have "\<dots> = (b - k * m) mod m" by (rule mod_mult_self1)
  also from assms have "\<dots> = b - k * m" by simp
  finally show ?thesis .
qed













subsection \<open>\<open>FormatText\<close> folds the loop body over the words\<close>

lemma FormatText_loop_fold:
  "FormatText_loop fc t maxWidth fontID st pos
     = Inr (foldl (\<lambda>st w. fmt_body fc maxWidth fontID w st) st (tokens_loop t pos))"
proof (induction fc t maxWidth fontID st pos rule: FormatText_loop.induct)
  case (1 fc t maxWidth fontID st pos)
  show ?case
  proof (cases "pos < length t")
    case False
    then show ?thesis by (simp add: FormatText_loop.simps tokens_loop.simps)
  next
    case True
    from getNextWord_result [of "drop pos t"]
    obtain n w where nw: "getNextWord (drop pos t) = (n, w, None)" by blast
    show ?thesis
    proof (cases "w = []")
      case True
      with \<open>pos < length t\<close> nw show ?thesis
        by (subst FormatText_loop.simps, subst tokens_loop.simps) simp
    next
      case False
      with "1.IH" [OF True nw [symmetric] refl refl] True nw show ?thesis
        by (subst FormatText_loop.simps, subst tokens_loop.simps) simp
    qed
  qed
qed

lemma FormatText_tokens:
  assumes "\<not> (fontID \<noteq> [] \<and> fontID \<noteq> testFontID \<and> fontID \<notin> dom (Fonts fc))"
  shows "FormatText fc t maxWidth fontID
     = (emitted (foldl (\<lambda>st w. fmt_body fc maxWidth fontID w st) fmt_init (tokenize t)), None)"
  using assms
  by (auto simp add: FormatText_def FormatText_loop_fold tokenize_def emitted_def
      isFontIDValid_def dom_def)

lemma emitted_fmt_body:
  "emitted (fmt_body fc maxWidth fontID w st)
     = emitted st @ sepOf fc maxWidth fontID w st @ w @ trailOf w"
  by (simp add: fmt_body_def emitted_def sepOf_def trailOf_def Let_def)

lemma sublist_emitted_fold:
  "sublist x (emitted st) \<Longrightarrow>
   sublist x (emitted (foldl (\<lambda>st w. fmt_body fc maxWidth fontID w st) st ws))"
proof (induction ws arbitrary: st)
  case Nil
  then show ?case by simp
next
  case (Cons w ws)
  from Cons.prems obtain ps ss where "emitted st = ps @ x @ ss"
    unfolding sublist_def by blast
  then have "emitted (fmt_body fc maxWidth fontID w st)
      = ps @ x @ (ss @ sepOf fc maxWidth fontID w st @ w @ trailOf w)"
    by (simp add: emitted_fmt_body)
  then have "sublist x (emitted (fmt_body fc maxWidth fontID w st))"
    unfolding sublist_def by blast
  from Cons.IH [OF this] show ?case by simp
qed

lemma token_sublist_fold:
  "w \<in> set ws \<Longrightarrow>
   sublist w (emitted (foldl (\<lambda>st w. fmt_body fc maxWidth fontID w st) st ws))"
proof (induction ws arbitrary: st)
  case Nil
  then show ?case by simp
next
  case (Cons v ws)
  show ?case
  proof (cases "w = v")
    case True
    have "emitted (fmt_body fc maxWidth fontID v st)
        = (emitted st @ sepOf fc maxWidth fontID v st) @ v @ trailOf v"
      by (simp add: emitted_fmt_body)
    then have "sublist v (emitted (fmt_body fc maxWidth fontID v st))"
      unfolding sublist_def by blast
    from sublist_emitted_fold [OF this] True show ?thesis by simp
  next
    case False
    with Cons.prems have "w \<in> set ws" by simp
    from Cons.IH [OF this] show ?thesis by simp
  qed
qed


subsection \<open>The matches of the regular expression in a word\<close>

lemma processControlCodes_codeTexts:
  "processControlCodes fc word fontID
     = (ReplaceAllString word,
        sum_list (map (\<lambda>code. getControlCodePixelWidth fc code fontID) (codeTexts word)))"
  by (simp add: processControlCodes_def codeTexts_def foldl_add_sum_list comp_def case_prod_unfold)

lemma FindAllStringIndex_shift:
  "FindAllStringIndex (off + d) s = map (\<lambda>(a, b). (a + d, b + d)) (FindAllStringIndex off s)"
proof (induction off s arbitrary: d rule: FindAllStringIndex.induct)
  case (1 off)
  then show ?case by simp
next
  case (2 off c cs)
  show ?case
  proof (cases "c = CHR ''{''")
    case False
    with "2.IH"(3) [OF False, of d] show ?thesis by simp
  next
    case True
    show ?thesis
    proof (cases "findClose cs")
      case None
      with True "2.IH"(1) [OF True None, of d] show ?thesis by simp
    next
      case (Some k)
      have "off + d + k + 2 = off + k + 2 + d" by simp
      with True Some "2.IH"(2) [OF True Some, of d] show ?thesis by (simp add: ac_simps)
    qed
  qed
qed

lemma codeTexts_slices:
  "map (\<lambda>(p0, p1). take (p1 - p0) (drop p0 (x @ s))) (FindAllStringIndex (length x) s)
     = codeTexts s"
  using FindAllStringIndex_shift [of 0 "length x" s]
  by (simp add: codeTexts_def comp_def case_prod_unfold)

lemma FindAllStringIndex_prefix:
  "CHR ''{'' \<notin> set pre \<Longrightarrow>
   FindAllStringIndex off (pre @ w) = FindAllStringIndex (off + length pre) w"
  by (induction pre arbitrary: off) auto

lemma ReplaceAllString_prefix:
  "CHR ''{'' \<notin> set pre \<Longrightarrow> ReplaceAllString (pre @ w) = pre @ ReplaceAllString w"
  by (induction pre) auto

lemma codeTexts_prefix:
  assumes "CHR ''{'' \<notin> set pre"
  shows "codeTexts (pre @ w) = codeTexts w"
proof -
  have "codeTexts (pre @ w)
      = map (\<lambda>(p0, p1). take (p1 - p0) (drop p0 (pre @ w))) (FindAllStringIndex (length pre) w)"
    using FindAllStringIndex_prefix [OF assms, of 0 w] by (simp add: codeTexts_def)
  also have "\<dots> = codeTexts w"
    by (rule codeTexts_slices)
  finally show ?thesis .
qed

lemma findClose_first:
  "CHR ''}'' \<notin> set mid \<Longrightarrow> findClose (mid @ CHR ''}'' # rest) = Some (length mid)"
  by (induction mid) auto

lemma ReplaceAllString_code:
  "CHR ''}'' \<notin> set mid \<Longrightarrow>
   ReplaceAllString (CHR ''{'' # mid @ CHR ''}'' # rest) = ReplaceAllString rest"
  by (simp add: findClose_first)

lemma codeTexts_code:
  assumes "CHR ''}'' \<notin> set mid"
  shows "codeTexts (CHR ''{'' # mid @ CHR ''}'' # rest)
     = (CHR ''{'' # mid @ [CHR ''}'']) # codeTexts rest"
proof -
  define x where "x = CHR ''{'' # mid @ [CHR ''}'']"
  have w: "CHR ''{'' # mid @ CHR ''}'' # rest = x @ rest"
    by (simp add: x_def)
  have fa: "FindAllStringIndex 0 (x @ rest) = (0, length x) # FindAllStringIndex (length x) rest"
    using assms by (simp add: x_def findClose_first)
  have "codeTexts (x @ rest)
      = x # map (\<lambda>(p0, p1). take (p1 - p0) (drop p0 (x @ rest))) (FindAllStringIndex (length x) rest)"
    unfolding codeTexts_def fa by simp
  also have "\<dots> = x # codeTexts rest"
    by (simp only: codeTexts_slices)
  finally have "codeTexts (x @ rest) = x # codeTexts rest" .
  then show ?thesis
    unfolding w by (simp only: x_def)
qed

lemma findClose_None: "CHR ''}'' \<notin> set cs \<Longrightarrow> findClose cs = None"
  by (induction cs) auto

lemma no_code:
  assumes "CHR ''}'' \<notin> set (dropWhile (\<lambda>c. c \<noteq> CHR ''{'') w)"
  shows "FindAllStringIndex off w = [] \<and> ReplaceAllString w = w"
  using assms
proof (induction w arbitrary: off)
  case Nil
  then show ?case by simp
next
  case (Cons c cs)
  show ?case
  proof (cases "c = CHR ''{''")
    case True
    with Cons.prems have no: "CHR ''}'' \<notin> set cs" by simp
    then have "CHR ''}'' \<notin> set (dropWhile (\<lambda>c. c \<noteq> CHR ''{'') cs)"
      by (meson set_dropWhileD)
    from Cons.IH [OF this] findClose_None [OF no] True show ?thesis by simp
  next
    case False
    with Cons.prems have "CHR ''}'' \<notin> set (dropWhile (\<lambda>c. c \<noteq> CHR ''{'') cs)" by simp
    from Cons.IH [OF this] False show ?thesis by simp
  qed
qed

lemma codeTexts_none:
  "CHR ''}'' \<notin> set (dropWhile (\<lambda>c. c \<noteq> CHR ''{'') w) \<Longrightarrow> codeTexts w = []"
  by (simp add: codeTexts_def no_code)

subsection \<open>Decoding what \<open>encodeRune\<close> writes\<close>

lemma utf8_first_2: "0xC2 \<le> b0 \<Longrightarrow> b0 < 0xE0 \<Longrightarrow> utf8_first b0 = (2, 0x80, 0xBF)"
  by (simp add: utf8_first_def)

lemma utf8_first_3:
  "0xE0 \<le> b0 \<Longrightarrow> b0 < 0xF0 \<Longrightarrow>
   utf8_first b0 = (3, if b0 = 0xE0 then 0xA0 else 0x80, if b0 = 0xED then 0x9F else 0xBF)"
  by (simp add: utf8_first_def)

lemma utf8_first_4:
  "0xF0 \<le> b0 \<Longrightarrow> b0 \<le> 0xF4 \<Longrightarrow>
   utf8_first b0 = (4, if b0 = 0xF0 then 0x90 else 0x80, if b0 = 0xF4 then 0x8F else 0xBF)"
  by (simp add: utf8_first_def)

lemma decodeRune_2:
  assumes "0xC2 \<le> b0" "b0 < 0xE0" "0x80 \<le> b1" "b1 \<le> 0xBF"
  shows "decodeRune (char_of b0 # char_of b1 # rest) = ((b0 - 0xC0) * 0x40 + (b1 - 0x80), 2)"
proof -
  from assms have m0: "b0 mod 0x20 = b0 - 0xC0" using mod_window [of 6 32 b0] by simp
  from assms have m1: "b1 mod 0x40 = b1 - 0x80" using mod_window [of 2 64 b1] by simp
  from assms have c: "of_char (char_of b0) = b0" "of_char (char_of b1) = b1" by simp_all
  show ?thesis
    using assms by (simp add: decodeRune_def byteAt_def c utf8_first_2 m0 m1)
qed

lemma decodeRune_3:
  assumes "0xE0 \<le> b0" "b0 < 0xF0" "0x80 \<le> b1" "b1 \<le> 0xBF" "0x80 \<le> b2" "b2 \<le> 0xBF"
    and "b0 = 0xE0 \<longrightarrow> 0xA0 \<le> b1" and "b0 = 0xED \<longrightarrow> b1 \<le> 0x9F"
  shows "decodeRune (char_of b0 # char_of b1 # char_of b2 # rest)
     = ((b0 - 0xE0) * 0x1000 + (b1 - 0x80) * 0x40 + (b2 - 0x80), 3)"
proof -
  from assms have m0: "b0 mod 0x10 = b0 - 0xE0" using mod_window [of 14 16 b0] by simp
  from assms have m1: "b1 mod 0x40 = b1 - 0x80" using mod_window [of 2 64 b1] by simp
  from assms have m2: "b2 mod 0x40 = b2 - 0x80" using mod_window [of 2 64 b2] by simp
  from assms have c: "of_char (char_of b0) = b0" "of_char (char_of b1) = b1"
    "of_char (char_of b2) = b2" by simp_all
  show ?thesis
    using assms by (auto simp add: decodeRune_def byteAt_def c utf8_first_3 m0 m1 m2)
qed

lemma decodeRune_4:
  assumes "0xF0 \<le> b0" "b0 \<le> 0xF4" "0x80 \<le> b1" "b1 \<le> 0xBF" "0x80 \<le> b2" "b2 \<le> 0xBF"
    "0x80 \<le> b3" "b3 \<le> 0xBF"
    and "b0 = 0xF0 \<longrightarrow> 0x90 \<le> b1" and "b0 = 0xF4 \<longrightarrow> b1 \<le> 0x8F"
  shows "decodeRune (char_of b0 # char_of b1 # char_of b2 # char_of b3 # rest)
     = ((b0 - 0xF0) * 0x40000 + (b1 - 0x80) * 0x1000 + (b2 - 0x80) * 0x40 + (b3 - 0x80), 4)"
proof -
  from assms have m0: "b0 mod 0x08 = b0 - 0xF0" using mod_window [of 30 8 b0] by simp
  from assms have m1: "b1 mod 0x40 = b1 - 0x80" using mod_window [of 2 64 b1] by simp
  from assms have m2: "b2 mod 0x40 = b2 - 0x80" using mod_window [of 2 64 b2] by simp
  from assms have m3: "b3 mod 0x40 = b3 - 0x80" using mod_window [of 2 64 b3] by simp
  from assms have c: "of_char (char_of b0) = b0" "of_char (char_of b1) = b1"
    "of_char (char_of b2) = b2" "of_char (char_of b3) = b3" by simp_all
  show ?thesis
    using assms by (auto simp add: decodeRune_def byteAt_def c utf8_first_4 m0 m1 m2 m3)
qed


lemma split_64: "(r::nat) = r div 64 * 64 + r mod 64"
  by simp

lemma div_4096: "(r::nat) div 4096 = r div 64 div 64"
  by (simp add: div_mult2_eq [symmetric])

lemma div_262144: "(r::nat) div 262144 = r div 64 div 64 div 64"
  by (simp add: div_mult2_eq [symmetric])

lemma decodeRune_encodeRune:
  assumes "isScalar r"
  shows "decodeRune (encodeRune r @ rest) = (r, length (encodeRune r))"
proof -
  define q1 where "q1 = r div 64"
  define m1 where "m1 = r mod 64"
  define q2 where "q2 = q1 div 64"
  define m2 where "m2 = q1 mod 64"
  define q3 where "q3 = q2 div 64"
  define m3 where "m3 = q2 mod 64"
  have r: "r = q1 * 64 + m1" and m1: "m1 < 64"
    by (simp_all add: q1_def m1_def)
  have q1: "q1 = q2 * 64 + m2" and m2: "m2 < 64"
    by (simp_all add: q2_def m2_def)
  have q2: "q2 = q3 * 64 + m3" and m3: "m3 < 64"
    by (simp_all add: q3_def m3_def)
  have d1: "r div 0x40 = q1" "r mod 0x40 = m1" "r div 0x40 mod 0x40 = m2"
    by (simp_all add: q1_def m1_def m2_def)
  have d2: "r div 0x1000 = q2" "r div 0x1000 mod 0x40 = m3" "r div 0x40000 = q3"
    by (simp_all add: div_4096 div_262144 q1_def q2_def q3_def m3_def)
  have dm: "q1 mod 64 = m2" "q2 mod 64 = m3"
    by (simp_all add: m2_def m3_def)
  consider (one) "r < 0x80" | (two) "0x80 \<le> r" "r < 0x800"
    | (three) "0x800 \<le> r" "r < 0x10000" | (four) "0x10000 \<le> r"
    by linarith
  then show ?thesis
  proof cases
    case one
    then show ?thesis
      by (simp add: encodeRune_def decodeRune_def byteAt_def)
  next
    case two
    with r m1 have b: "2 \<le> q1" "q1 < 32" by simp_all
    from two have e: "encodeRune r = [char_of (0xC0 + q1), char_of (0x80 + m1)]"
      by (simp add: encodeRune_def d1 dm)
    from decodeRune_2 [of "0xC0 + q1" "0x80 + m1" rest] b m1 r
    have "decodeRune (char_of (0xC0 + q1) # char_of (0x80 + m1) # rest) = (r, 2)"
      by simp
    then show ?thesis by (simp add: e)
  next
    case three
    with assms have ns: "r < 0xD800 \<or> 0xE000 \<le> r" by (simp add: isScalar_def)
    from three r q1 m1 m2 have b: "q2 < 16" by simp
    from three ns have e: "encodeRune r
        = [char_of (0xE0 + q2), char_of (0x80 + m2), char_of (0x80 + m1)]"
      by (auto simp add: encodeRune_def d1 d2 dm)
    have lo: "0xE0 + q2 = 0xE0 \<longrightarrow> 0xA0 \<le> 0x80 + m2"
      using three r q1 m1 by simp
    have hi: "0xE0 + q2 = 0xED \<longrightarrow> 0x80 + m2 \<le> 0x9F"
      using ns three r q1 m1 m2 by auto
    from decodeRune_3 [of "0xE0 + q2" "0x80 + m2" "0x80 + m1" rest, OF _ _ _ _ _ _ lo hi] b m1 m2 r q1
    have "decodeRune (char_of (0xE0 + q2) # char_of (0x80 + m2) # char_of (0x80 + m1) # rest)
        = (r, 3)"
      by simp
    then show ?thesis by (simp add: e)
  next
    case four
    with assms have le: "r \<le> 0x10FFFF" by (simp add: isScalar_def)
    from le r q1 q2 m1 m2 m3 have b: "q3 \<le> 4" by simp
    from four le have e: "encodeRune r
        = [char_of (0xF0 + q3), char_of (0x80 + m3), char_of (0x80 + m2), char_of (0x80 + m1)]"
      by (simp add: encodeRune_def d1 d2 dm)
    have lo: "0xF0 + q3 = 0xF0 \<longrightarrow> 0x90 \<le> 0x80 + m3"
      using four r q1 q2 m1 m2 by simp
    have hi: "0xF0 + q3 = 0xF4 \<longrightarrow> 0x80 + m3 \<le> 0x8F"
      using le r q1 q2 m1 m2 m3 by simp
    from decodeRune_4 [of "0xF0 + q3" "0x80 + m3" "0x80 + m2" "0x80 + m1" rest,
        OF _ _ _ _ _ _ _ _ lo hi] b m1 m2 m3 r q1 q2
    have "decodeRune (char_of (0xF0 + q3) # char_of (0x80 + m3) # char_of (0x80 + m2)
        # char_of (0x80 + m1) # rest) = (r, 4)"
      by simp
    then show ?thesis by (simp add: e)
  qed
qed


lemma encodeRune_not_Nil: "encodeRune r \<noteq> []"
  by (simp add: encodeRune_def)

lemma runes_encodeRune:
  assumes "isScalar r"
  shows "runes (encodeRune r @ rest) = (r, length (encodeRune r)) # runes rest"
  using decodeRune_encodeRune [OF assms, of rest]
  by (subst runes.simps) (simp add: encodeRune_not_Nil)

lemma char_of_ascii_neq:
  assumes c: "(of_char c :: nat) < 0x80" and n: "n < 256" "n \<noteq> of_char c"
  shows "char_of (n::nat) \<noteq> c"
proof
  assume "char_of n = c"
  then have "(of_char (char_of n) :: nat) = of_char c" by simp
  then have "n mod 256 = of_char c" by (simp add: of_char_of)
  with n show False by simp
qed

lemma cont_byte:
  assumes "(of_char c :: nat) < 0x80"
  shows "char_of (0x80 + x mod 0x40 :: nat) \<noteq> c"
proof (rule char_of_ascii_neq [OF assms])
  have "x mod 0x40 < 0x40" by simp
  then show "0x80 + x mod 0x40 < 256" by arith
  show "0x80 + x mod 0x40 \<noteq> of_char c" using assms by arith
qed

lemma encodeRune_ascii_notin:
  assumes c: "(of_char c :: nat) < 0x80" and r: "r \<noteq> of_char c"
  shows "c \<notin> set (encodeRune r)"
proof -
  have b1: "r < 0x80 \<Longrightarrow> char_of r \<noteq> c"
    using r by (intro char_of_ascii_neq [OF c]) simp_all
  have b2: "r < 0x800 \<Longrightarrow> char_of (0xC0 + r div 0x40) \<noteq> c"
  proof (rule char_of_ascii_neq [OF c])
    assume "r < 0x800"
    then have "r div 0x40 < 0x20" by (simp add: less_mult_imp_div_less)
    then show "0xC0 + r div 0x40 < 256" by arith
    show "0xC0 + r div 0x40 \<noteq> of_char c" using c by arith
  qed
  have b3: "r < 0x10000 \<Longrightarrow> char_of (0xE0 + r div 0x1000) \<noteq> c"
  proof (rule char_of_ascii_neq [OF c])
    assume "r < 0x10000"
    then have "r div 0x1000 < 0x10" by (simp add: less_mult_imp_div_less)
    then show "0xE0 + r div 0x1000 < 256" by arith
    show "0xE0 + r div 0x1000 \<noteq> of_char c" using c by arith
  qed
  have b4: "r \<le> 0x10FFFF \<Longrightarrow> char_of (0xF0 + r div 0x40000) \<noteq> c"
  proof (rule char_of_ascii_neq [OF c])
    assume "r \<le> 0x10FFFF"
    then have "r < 0x40000 * 5" by simp
    then have "r div 0x40000 < 5" by (simp add: less_mult_imp_div_less)
    then show "0xF0 + r div 0x40000 < 256" by arith
    show "0xF0 + r div 0x40000 \<noteq> of_char c" using c by arith
  qed
  have b5: "CHR 0xEF \<noteq> c" "CHR 0xBF \<noteq> c" "CHR 0xBD \<noteq> c"
    using c by auto
  show ?thesis
    using b1 b2 b3 b4 b5 cont_byte [OF c, of r] cont_byte [OF c, of "r div 0x40"]
      cont_byte [OF c, of "r div 0x1000"]
    by (auto simp add: encodeRune_def not_less)
qed

lemma encodeRunes_simps:
  "encodeRunes [] = []" "encodeRunes (r # rs) = encodeRune r @ encodeRunes rs"
  by (simp_all add: encodeRunes_def)

lemma encodeRunes_append: "encodeRunes (rs @ rs') = encodeRunes rs @ encodeRunes rs'"
  by (simp add: encodeRunes_def)

lemma encodeRunes_ascii_notin:
  "(of_char c :: nat) < 0x80 \<Longrightarrow> of_char c \<notin> set rs \<Longrightarrow> c \<notin> set (encodeRunes rs)"
  by (induction rs) (auto simp add: encodeRunes_simps encodeRune_ascii_notin)

lemma runes_encodeRunes:
  "\<forall>r \<in> set rs. isScalar r \<Longrightarrow>
   runes (encodeRunes rs @ rest) = map (\<lambda>r. (r, length (encodeRune r))) rs @ runes rest"
  by (induction rs) (simp_all add: encodeRunes_simps runes_encodeRune)

lemma encodeRune_open: "encodeRune 0x7B = [CHR ''{'']"
  by (simp add: encodeRune_def char_of_def bit_Suc_0_iff)

lemma unclosed_encodeRunes:
  assumes "0x7D \<notin> set (dropWhile (\<lambda>r. r \<noteq> 0x7B) rs)"
  shows "CHR ''}'' \<notin> set (dropWhile (\<lambda>c. c \<noteq> CHR ''{'') (encodeRunes rs))"
  using assms
proof (induction rs)
  case Nil
  show ?case by (simp add: encodeRunes_simps)
next
  case (Cons r rs)
  show ?case
  proof (cases "r = 0x7B")
    case True
    with Cons.prems have "0x7D \<notin> set rs" by simp
    then have "CHR ''}'' \<notin> set (encodeRunes rs)"
      by (intro encodeRunes_ascii_notin) simp_all
    with True show ?thesis by (simp add: encodeRunes_simps encodeRune_open)
  next
    case False
    then have "CHR ''{'' \<notin> set (encodeRune r)"
      by (intro encodeRune_ascii_notin) simp_all
    then have "dropWhile (\<lambda>c. c \<noteq> CHR ''{'') (encodeRune r @ encodeRunes rs)
        = dropWhile (\<lambda>c. c \<noteq> CHR ''{'') (encodeRunes rs)"
      by (intro dropWhile_append2) auto
    with False Cons show ?thesis by (simp add: encodeRunes_simps)
  qed
qed

subsection \<open>The width of a word made of segments\<close>

lemma segments_strip:
  assumes tail: "CHR ''}'' \<notin> set (dropWhile (\<lambda>c. c \<noteq> CHR ''{'') tail)"
  shows "\<forall>s \<in> set segs. segmentOK s \<Longrightarrow>
   ReplaceAllString (renderSegments segs @ tail) = encodeRunes (glyphsOf segs) @ tail \<and>
   codeTexts (renderSegments segs @ tail) = codesOf segs"
proof (induction segs)
  case Nil
  show ?case using no_code [OF tail] codeTexts_none [OF tail]
    by (simp add: renderSegments_def encodeRunes_simps)
next
  case (Cons s segs)
  then have ih: "ReplaceAllString (renderSegments segs @ tail) = encodeRunes (glyphsOf segs) @ tail"
    "codeTexts (renderSegments segs @ tail) = codesOf segs"
    by simp_all
  show ?case
  proof (cases s)
    case (Glyphs rs)
    with Cons.prems have "CHR ''{'' \<notin> set (encodeRunes rs)"
      by (intro encodeRunes_ascii_notin) auto
    then have "ReplaceAllString (encodeRunes rs @ renderSegments segs @ tail)
        = encodeRunes rs @ ReplaceAllString (renderSegments segs @ tail)"
      "codeTexts (encodeRunes rs @ renderSegments segs @ tail)
        = codeTexts (renderSegments segs @ tail)"
      by (rule ReplaceAllString_prefix, rule codeTexts_prefix)
    with ih Glyphs show ?thesis by (simp add: renderSegments_def encodeRunes_append)
  next
    case (ControlCode body)
    with Cons.prems have "CHR ''}'' \<notin> set body" by simp
    then have "ReplaceAllString (CHR ''{'' # body @ CHR ''}'' # renderSegments segs @ tail)
        = ReplaceAllString (renderSegments segs @ tail)"
      "codeTexts (CHR ''{'' # body @ CHR ''}'' # renderSegments segs @ tail)
        = (CHR ''{'' # body @ [CHR ''}'']) # codeTexts (renderSegments segs @ tail)"
      by (rule ReplaceAllString_code, rule codeTexts_code)
    with ih ControlCode show ?thesis by (simp add: renderSegments_def)
  qed
qed

lemma glyphsOf_scalar:
  "\<forall>s \<in> set segs. segmentOK s \<Longrightarrow> \<forall>r \<in> set (glyphsOf segs). isScalar r"
proof (induction segs)
  case Nil
  show ?case by simp
next
  case (Cons s segs)
  then show ?case by (cases s) auto
qed

lemma segmentWidth_sum:
  "sum_list (map (segmentWidth fc fontID) segs)
    = sum_list (map (\<lambda>code. getControlCodePixelWidth fc code fontID) (codesOf segs))
      + sum_list (map (\<lambda>r. getRunePixelWidth fc r fontID) (glyphsOf segs))"
proof (induction segs)
  case Nil
  show ?case by simp
next
  case (Cons s segs)
  then show ?case by (cases s) (simp_all add: ac_simps)
qed

lemma foldl_rune_widths:
  "foldl (\<lambda>wordWidth (r, sz). wordWidth + getRunePixelWidth fc r fontID) a
      (map (\<lambda>r. (r, length (encodeRune r))) rs)
    = a + sum_list (map (\<lambda>r. getRunePixelWidth fc r fontID) rs)"
  by (induction rs arbitrary: a) (simp_all add: ac_simps)

lemma getWordPixelWidth_segments:
  assumes ok: "\<forall>s \<in> set segs. segmentOK s"
    and sc: "\<forall>r \<in> set rest. isScalar r"
    and un: "0x7D \<notin> set (dropWhile (\<lambda>r. r \<noteq> 0x7B) rest)"
  shows "getWordPixelWidth fc (renderSegments segs @ encodeRunes rest) fontID
    = sum_list (map (segmentWidth fc fontID) segs)
      + sum_list (map (\<lambda>r. getRunePixelWidth fc r fontID) rest)"
proof -
  have all: "\<forall>r \<in> set (glyphsOf segs @ rest). isScalar r"
    using glyphsOf_scalar [OF ok] sc by auto
  have "runes (encodeRunes (glyphsOf segs) @ encodeRunes rest)
      = map (\<lambda>r. (r, length (encodeRune r))) (glyphsOf segs @ rest)"
    using runes_encodeRunes [OF all, of "[]"] by (simp add: runes_Nil encodeRunes_append)
  then have "getWordPixelWidth fc (renderSegments segs @ encodeRunes rest) fontID
      = sum_list (map (\<lambda>code. getControlCodePixelWidth fc code fontID) (codesOf segs))
        + sum_list (map (\<lambda>r. getRunePixelWidth fc r fontID) (glyphsOf segs @ rest))"
    using segments_strip [OF unclosed_encodeRunes [OF un] ok]
    by (simp add: getWordPixelWidth_def processControlCodes_codeTexts foldl_rune_widths)
  then show ?thesis by (simp add: segmentWidth_sum ac_simps)
qed


subsection \<open>The tokenizer and the words of a text\<close>































subsection \<open>The output is the words with separators\<close>





subsection \<open>Words joined by spaces are read back as the same words\<close>



















section \<open>Properties\<close>

text \<open>
  Claim C1. With the test font and \<open>maxWidth = 25\<close>, \<open>FormatText\<close> on \<open>ab cd\<close> succeeds
  and returns \<open>ab\<close>, a backslash, \<open>n\<close>, a newline character and \<open>cd\<close>, whatever the
  configuration: the first word has width 20 and leaves the line width at 20, the second
  word has candidate width 30 (a space and two characters), and the marker is that of the
  first line of a paragraph.
\<close>

theorem C1_test_font_wrap:
  "FormatText fc ''ab cd'' 25 testFontID
     = ([CHR ''a'', CHR ''b'', bslash, CHR ''n'', newline, CHR ''c'', CHR ''d''], None)
   \<and> getWordPixelWidth fc ''ab'' testFontID = 20
   \<and> curWidth (fmt_body fc 25 testFontID ''ab'' fmt_init) = 20
   \<and> wordWidthOf fc testFontID ''cd'' (fmt_body fc 25 testFontID ''ab'' fmt_init) = 30
   \<and> isFirstLine (fmt_body fc 25 testFontID ''ab'' fmt_init)"
  by (simp add: gnw_eval fmt_eval)

text \<open>
  Claim C3. When a word that is not the first of its line overflows a non-empty line, the
  new line's recorded width is the candidate width of the word, interword space included:
  it exceeds the pixel width of the word by exactly the width of one space, the word starts
  the new line buffer, and the next word is not the first of its line.
\<close>

theorem C3_flush_keeps_space_width:
  assumes "\<not> isLineBreak word"
    and "sint maxWidth < sint (curWidth st + wordWidthOf fc fontID word st)"
    and "length (curLineSb st) > 0"
    and "\<not> isFirstWord st"
  shows "curWidth (fmt_body fc maxWidth fontID word st)
           = getRunePixelWidth fc (of_char CHR '' '') fontID + getWordPixelWidth fc word fontID
         \<and> curWidth (fmt_body fc maxWidth fontID word st) - getWordPixelWidth fc word fontID
           = getRunePixelWidth fc (of_char CHR '' '') fontID
         \<and> curWidth (fmt_body fc maxWidth fontID word st) = wordWidthOf fc fontID word st
         \<and> curLineSb (fmt_body fc maxWidth fontID word st) = word
         \<and> \<not> isFirstWord (fmt_body fc maxWidth fontID word st)"
  using assms by (simp add: fmt_body_def wordWidthOf_def)

theorem C3_flush_keeps_space_width_witness:
  "\<not> isLineBreak ''cd''
   \<and> sint (25 :: go_int) < sint (curWidth (fmt_body emptyConfig 25 testFontID ''ab'' fmt_init)
        + wordWidthOf emptyConfig testFontID ''cd'' (fmt_body emptyConfig 25 testFontID ''ab'' fmt_init))
   \<and> length (curLineSb (fmt_body emptyConfig 25 testFontID ''ab'' fmt_init)) > 0
   \<and> \<not> isFirstWord (fmt_body emptyConfig 25 testFontID ''ab'' fmt_init)
   \<and> curWidth (fmt_body emptyConfig 25 testFontID ''cd''
        (fmt_body emptyConfig 25 testFontID ''ab'' fmt_init)) = 30
   \<and> getWordPixelWidth emptyConfig ''cd'' testFontID = 20
   \<and> getRunePixelWidth emptyConfig (of_char CHR '' '') testFontID = 10"
proof -
  let ?st = "fmt_body emptyConfig 25 testFontID ''ab'' fmt_init"
  have h1: "\<not> isLineBreak ''cd''"
    by (simp add: isLineBreak_def)
  have h2: "sint (25 :: go_int) < sint (curWidth ?st + wordWidthOf emptyConfig testFontID ''cd'' ?st)"
    by (simp add: gnw_eval fmt_eval)
  have h3: "length (curLineSb ?st) > 0"
    by (simp add: gnw_eval fmt_eval)
  have h4: "\<not> isFirstWord ?st"
    by (simp add: gnw_eval fmt_eval)
  from C3_flush_keeps_space_width [OF h1 h2 h3 h4] h1 h2 h3 h4 show ?thesis 
    by (simp add: getWordPixelWidth_def processControlCodes_def getRunePixelWidth_def
        getControlCodePixelWidth_def testFontID_def runes_Nil runes_ascii)
qed

text \<open>
  Claim C4. For an authored break token (\<open>\\n\<close>, \<open>\\l\<close> or \<open>\\p\<close>) the engine appends the
  current line, the token and a newline character to the output, empties the line buffer,
  resets the width to 0 and marks the next word as first of its line; the next line is the
  first of a paragraph exactly for \<open>\\p\<close>. On \<open>hello\\p world\<close> with the test font the result
  is \<open>hello\\p\<close>, a newline character and \<open>world\<close>, for every \<open>maxWidth\<close>.
\<close>

theorem C4_break_token:
  "(isLineBreak word \<longrightarrow>
      fmt_body fc maxWidth fontID word st
        = \<lparr>formattedSb = formattedSb st @ curLineSb st @ word @ [newline],
           curLineSb = [], curWidth = 0,
           isFirstLine = (word = [bslash, CHR ''p'']), isFirstWord = True\<rparr>)
   \<and> (isLineBreak word \<longleftrightarrow> word \<in> {[bslash, CHR ''n''], [bslash, CHR ''l''], [bslash, CHR ''p'']})
   \<and> FormatText fc (''hello'' @ [bslash, CHR ''p''] @ '' world'') maxWidth testFontID
        = (''hello'' @ [bslash, CHR ''p'', newline] @ ''world'', None)"
  by (auto simp add: gnw_eval fmt_eval)

theorem C4_break_token_witness:
  "isLineBreak [bslash, CHR ''p'']
   \<and> fmt_body emptyConfig 1000 testFontID [bslash, CHR ''p'']
        \<lparr>formattedSb = ''x'', curLineSb = ''hello'', curWidth = 50, isFirstLine = False, isFirstWord = False\<rparr>
      = \<lparr>formattedSb = ''xhello'' @ [bslash, CHR ''p'', newline], curLineSb = [], curWidth = 0,
          isFirstLine = True, isFirstWord = True\<rparr>"
proof -
  have h: "isLineBreak [bslash, CHR ''p'']"
    by (simp add: isLineBreak_def)
  from h C4_break_token [of "[bslash, CHR ''p'']" emptyConfig 1000 testFontID
     "\<lparr>formattedSb = ''x'', curLineSb = ''hello'', curWidth = 50, isFirstLine = False, isFirstWord = False\<rparr>"]
  show ?thesis by simp
qed

text \<open>
  Claim C5. Width lookup follows the fallback chain: with the test font a rune has width 10
  and a control code 100 whatever the table holds; otherwise a font that is not in the
  table gives 0, and a font of the table gives the width of the key, else its \<open>default\<close>
  entry, else 0.
\<close>

theorem C5_width_lookup:
  "(fontID = testFontID \<longrightarrow>
      getRunePixelWidth fc r fontID = 10 \<and> getControlCodePixelWidth fc code fontID = 100)
   \<and> (fontID \<noteq> testFontID \<longrightarrow>
      getRunePixelWidth fc r fontID = readWidthFromFontConfig fc (encodeRune r) fontID
      \<and> getControlCodePixelWidth fc code fontID = readWidthFromFontConfig fc code fontID)
   \<and> (Fonts fc fontID = None \<longrightarrow> readWidthFromFontConfig fc key fontID = 0)
   \<and> (\<forall>font. Fonts fc fontID = Some font \<longrightarrow>
        readWidthFromFontConfig fc key fontID =
          (case Widths font key of
             Some width \<Rightarrow> width
           | None \<Rightarrow> (case Widths font ''default'' of Some d \<Rightarrow> d | None \<Rightarrow> 0)))"
  by (auto simp add: getRunePixelWidth_def getControlCodePixelWidth_def
      readWidthFromFontConfig_def fallbackWidth_def split: option.splits)

theorem C5_width_lookup_witness:
  "getRunePixelWidth sampleConfig (of_char CHR ''a'') testFontID = 10
   \<and> getControlCodePixelWidth sampleConfig ''{PLAYER}'' testFontID = 100
   \<and> ''1_latin'' \<noteq> testFontID
   \<and> Fonts sampleConfig ''nofont'' = None
   \<and> readWidthFromFontConfig sampleConfig ''a'' ''nofont'' = 0
   \<and> getRunePixelWidth sampleConfig (of_char CHR ''a'') ''1_latin'' = 6
   \<and> getRunePixelWidth sampleConfig (of_char CHR ''b'') ''1_latin'' = 8
   \<and> getControlCodePixelWidth sampleConfig ''{PLAYER}'' ''1_latin'' = 42
   \<and> getRunePixelWidth sampleConfig (of_char CHR ''b'') ''2_bare'' = 0"
  using C5_width_lookup [of testFontID sampleConfig "of_char CHR ''a''" "''{PLAYER}''" "''a''"]
    C5_width_lookup [of "''nofont''" sampleConfig "of_char CHR ''a''" "''{PLAYER}''" "''a''"]
    C5_width_lookup [of "''1_latin''" sampleConfig "of_char CHR ''a''" "''{PLAYER}''" "''a''"]
    C5_width_lookup [of "''1_latin''" sampleConfig "of_char CHR ''b''" "''{PLAYER}''" "''b''"]
    C5_width_lookup [of "''1_latin''" sampleConfig "of_char CHR ''b''" "''{PLAYER}''" "''{PLAYER}''"]
    C5_width_lookup [of "''2_bare''" sampleConfig "of_char CHR ''b''" "''{PLAYER}''" "''b''"]
  by (simp add: sampleConfig_def testFontID_def encodeRune_def char_of_def bit_Suc_0_iff)


text \<open>
  Claim C6. A word that is written as glyph runs and control codes (a code is an opening
  brace, a body with no closing brace, a closing brace; a glyph run is the UTF-8 encoding
  of Unicode scalar values other than the opening brace), followed by a rest in which no
  closing brace comes after an opening brace, has as its width the sum of the widths of
  its codes, each looked up under its whole text with the braces, plus the width of every
  character of the glyph runs and of the rest, one lookup per character. What the loop
  body writes is the text written so far, a separator (nothing, a space, or a break marker
  and a newline), then the word as it was read, control codes included; with an accepted
  font every word read is a contiguous part of the output. \<open>{COLOR RED}hi\<close> has width
  120 with the test font and is returned unchanged; the same holds with the code at the
  end or in the middle of the word, a character of two, three or four bytes counts once,
  and a byte that is no UTF-8 counts as one character, looked up as U+FFFD.
\<close>

theorem C6_word_width:
  "((\<forall>s \<in> set segs. segmentOK s) \<and> (\<forall>r \<in> set rest. isScalar r)
      \<and> 0x7D \<notin> set (dropWhile (\<lambda>r. r \<noteq> 0x7B) rest) \<longrightarrow>
      getWordPixelWidth fc (renderSegments segs @ encodeRunes rest) fontID
        = sum_list (map (segmentWidth fc fontID) segs)
          + sum_list (map (\<lambda>r. getRunePixelWidth fc r fontID) rest))
   \<and> emitted (fmt_body fc maxWidth fontID w st)
        = emitted st @ sepOf fc maxWidth fontID w st @ w @ trailOf w
   \<and> sepOf fc maxWidth fontID w st
        \<in> {[], '' '', [bslash, CHR ''n'', newline], [bslash, CHR ''l'', newline]}
   \<and> (\<not> isLineBreak w \<longrightarrow> trailOf w = [])
   \<and> (\<not> (fontID \<noteq> [] \<and> fontID \<noteq> testFontID \<and> fontID \<notin> dom (Fonts fc)) \<longrightarrow>
        (\<forall>tok \<in> set (tokenize t). sublist tok (fst (FormatText fc t maxWidth fontID))))
   \<and> getWordPixelWidth fc ''{COLOR RED}hi'' testFontID = 120
   \<and> FormatText fc ''{COLOR RED}hi'' maxWidth testFontID = (''{COLOR RED}hi'', None)
   \<and> getWordPixelWidth fc ''hi{COLOR RED}'' testFontID = 120
   \<and> getWordPixelWidth fc ''{a}{b}c{d'' testFontID = 230
   \<and> FormatText fc ''ab hi{COLOR RED}'' 149 testFontID
        = (''ab'' @ [bslash, CHR ''n'', newline] @ ''hi{COLOR RED}'', None)
   \<and> FormatText fc ''ab hi{COLOR RED}'' 150 testFontID = (''ab hi{COLOR RED}'', None)
   \<and> getWordPixelWidth fc [CHR 0xC3, CHR 0xA9] testFontID = 10
   \<and> getWordPixelWidth fc [CHR 0xE2, CHR 0x82, CHR 0xAC] testFontID = 10
   \<and> getWordPixelWidth fc [CHR 0xF0, CHR 0x9F, CHR 0x98, CHR 0x80] testFontID = 10
   \<and> getWordPixelWidth fc [CHR 0xFF, CHR ''a''] testFontID = 20
   \<and> getWordPixelWidth fc ([CHR 0xC3] @ ''{x}'' @ [CHR 0xA9]) testFontID = 110
   \<and> getWordPixelWidth accentConfig [CHR 0xC3, CHR 0xA9] ''3_accent'' = 7
   \<and> getWordPixelWidth accentConfig [CHR 0xE2, CHR 0x82, CHR 0xAC] ''3_accent'' = 8
   \<and> getWordPixelWidth accentConfig [CHR 0xFF] ''3_accent'' = 5"
proof (intro conjI)
  show "(\<forall>s \<in> set segs. segmentOK s) \<and> (\<forall>r \<in> set rest. isScalar r)
      \<and> 0x7D \<notin> set (dropWhile (\<lambda>r. r \<noteq> 0x7B) rest) \<longrightarrow>
      getWordPixelWidth fc (renderSegments segs @ encodeRunes rest) fontID
        = sum_list (map (segmentWidth fc fontID) segs)
          + sum_list (map (\<lambda>r. getRunePixelWidth fc r fontID) rest)"
    using getWordPixelWidth_segments [of segs rest fc fontID] by blast
  show "emitted (fmt_body fc maxWidth fontID w st)
        = emitted st @ sepOf fc maxWidth fontID w st @ w @ trailOf w"
    by (rule emitted_fmt_body)
  show "sepOf fc maxWidth fontID w st
        \<in> {[], '' '', [bslash, CHR ''n'', newline], [bslash, CHR ''l'', newline]}"
    by (simp add: sepOf_def)
  show "\<not> isLineBreak w \<longrightarrow> trailOf w = []"
    by (simp add: trailOf_def)
  show "\<not> (fontID \<noteq> [] \<and> fontID \<noteq> testFontID \<and> fontID \<notin> dom (Fonts fc)) \<longrightarrow>
        (\<forall>tok \<in> set (tokenize t). sublist tok (fst (FormatText fc t maxWidth fontID)))"
    by (simp add: FormatText_tokens token_sublist_fold)
  show "getWordPixelWidth fc ''{COLOR RED}hi'' testFontID = 120"
    by (simp add: fmt_eval rune_eval)
  show "FormatText fc ''{COLOR RED}hi'' maxWidth testFontID = (''{COLOR RED}hi'', None)"
    by (simp add: gnw_eval fmt_eval)
  show "getWordPixelWidth fc ''hi{COLOR RED}'' testFontID = 120"
    by (simp add: fmt_eval rune_eval)
  show "getWordPixelWidth fc ''{a}{b}c{d'' testFontID = 230"
    by (simp add: fmt_eval rune_eval)
  show "FormatText fc ''ab hi{COLOR RED}'' 149 testFontID
        = (''ab'' @ [bslash, CHR ''n'', newline] @ ''hi{COLOR RED}'', None)"
    by (simp add: gnw_eval fmt_eval rune_eval)
  show "FormatText fc ''ab hi{COLOR RED}'' 150 testFontID = (''ab hi{COLOR RED}'', None)"
    by (simp add: gnw_eval fmt_eval rune_eval)
  show "getWordPixelWidth fc [CHR 0xC3, CHR 0xA9] testFontID = 10"
    by (simp add: fmt_eval rune_eval)
  show "getWordPixelWidth fc [CHR 0xE2, CHR 0x82, CHR 0xAC] testFontID = 10"
    by (simp add: fmt_eval rune_eval)
  show "getWordPixelWidth fc [CHR 0xF0, CHR 0x9F, CHR 0x98, CHR 0x80] testFontID = 10"
    by (simp add: fmt_eval rune_eval)
  show "getWordPixelWidth fc [CHR 0xFF, CHR ''a''] testFontID = 20"
    by (simp add: fmt_eval rune_eval)
  show "getWordPixelWidth fc ([CHR 0xC3] @ ''{x}'' @ [CHR 0xA9]) testFontID = 110"
    by (simp add: fmt_eval rune_eval)
  show "getWordPixelWidth accentConfig [CHR 0xC3, CHR 0xA9] ''3_accent'' = 7"
    by (simp add: fmt_eval rune_eval accentConfig_def readWidthFromFontConfig_def encodeRune_def
        char_of_def bit_Suc_0_iff)
  show "getWordPixelWidth accentConfig [CHR 0xE2, CHR 0x82, CHR 0xAC] ''3_accent'' = 8"
    by (simp add: fmt_eval rune_eval accentConfig_def readWidthFromFontConfig_def encodeRune_def
        char_of_def bit_Suc_0_iff)
  show "getWordPixelWidth accentConfig [CHR 0xFF] ''3_accent'' = 5"
    by (simp add: fmt_eval rune_eval accentConfig_def readWidthFromFontConfig_def encodeRune_def
        char_of_def bit_Suc_0_iff)
qed

theorem C6_word_width_witness:
  "segmentOK (Glyphs [0x61]) \<and> segmentOK (ControlCode ''PLAYER'')
   \<and> segmentOK (Glyphs [0xE9, 0x62]) \<and> isScalar 0x7B \<and> isScalar 0x64
   \<and> 0x7D \<notin> set (dropWhile (\<lambda>r. r \<noteq> 0x7B) [0x7B, 0x64 :: nat])
   \<and> renderSegments [Glyphs [0x61], ControlCode ''PLAYER'', Glyphs [0xE9, 0x62]]
        @ encodeRunes [0x7B, 0x64] = ''a{PLAYER}'' @ [CHR 0xC3, CHR 0xA9] @ ''b{d''
   \<and> getWordPixelWidth sampleConfig (''a{PLAYER}'' @ [CHR 0xC3, CHR 0xA9] @ ''b{d'') ''1_latin''
        = 6 + 42 + (8 + 8) + (8 + 8)
   \<and> getWordPixelWidth sampleConfig (''a{PLAYER}'' @ [CHR 0xC3, CHR 0xA9] @ ''b{d'') testFontID
        = 10 + 100 + (10 + 10) + (10 + 10)
   \<and> \<not> isLineBreak ''hi{COLOR RED}''
   \<and> \<not> (testFontID \<noteq> [] \<and> testFontID \<noteq> testFontID \<and> testFontID \<notin> dom (Fonts sampleConfig))
   \<and> tokenize ''go hi{COLOR RED} now'' = [''go'', ''hi{COLOR RED}'', ''now'']
   \<and> sublist ''hi{COLOR RED}'' (fst (FormatText sampleConfig ''go hi{COLOR RED} now'' 125 testFontID))"
proof -
  have r: "renderSegments [Glyphs [0x61], ControlCode ''PLAYER'', Glyphs [0xE9, 0x62]]
        @ encodeRunes [0x7B, 0x64] = ''a{PLAYER}'' @ [CHR 0xC3, CHR 0xA9] @ ''b{d''"
    by (simp add: renderSegments_def encodeRunes_def encodeRune_def char_of_def bit_Suc_0_iff)
  have ok: "\<forall>s \<in> set [Glyphs [0x61], ControlCode ''PLAYER'', Glyphs [0xE9, 0x62]]. segmentOK s"
    "\<forall>r \<in> set [0x7B, 0x64]. isScalar r"
    "0x7D \<notin> set (dropWhile (\<lambda>r. r \<noteq> 0x7B) [0x7B, 0x64 :: nat])"
    by (simp_all add: isScalar_def)
  have tok: "tokenize ''go hi{COLOR RED} now'' = [''go'', ''hi{COLOR RED}'', ''now'']"
    by (simp add: tok_eval gnw_eval)
  have nb: "\<not> isLineBreak ''hi{COLOR RED}''"
    by (simp add: isLineBreak_def)
  have w1: "getWordPixelWidth sampleConfig (''a{PLAYER}'' @ [CHR 0xC3, CHR 0xA9] @ ''b{d'') ''1_latin''
        = 6 + 42 + (8 + 8) + (8 + 8)"
    using C6_word_width [where segs = "[Glyphs [0x61], ControlCode ''PLAYER'', Glyphs [0xE9, 0x62]]"
        and rest = "[0x7B, 0x64]" and fc = sampleConfig and fontID = "''1_latin''"
        and w = "[]" and st = fmt_init and t = "[]" and maxWidth = 0] ok
    by (simp add: r sampleConfig_def testFontID_def getRunePixelWidth_def
        getControlCodePixelWidth_def readWidthFromFontConfig_def encodeRune_def char_of_def
        bit_Suc_0_iff)
  have w2: "getWordPixelWidth sampleConfig (''a{PLAYER}'' @ [CHR 0xC3, CHR 0xA9] @ ''b{d'') testFontID
        = 10 + 100 + (10 + 10) + (10 + 10)"
    using C6_word_width [where segs = "[Glyphs [0x61], ControlCode ''PLAYER'', Glyphs [0xE9, 0x62]]"
        and rest = "[0x7B, 0x64]" and fc = sampleConfig and fontID = testFontID
        and w = "[]" and st = fmt_init and t = "[]" and maxWidth = 0] ok
    by (simp add: r getRunePixelWidth_def getControlCodePixelWidth_def)
  have s: "sublist ''hi{COLOR RED}'' (fst (FormatText sampleConfig ''go hi{COLOR RED} now'' 125 testFontID))"
    using C6_word_width [where fc = sampleConfig and fontID = testFontID
        and t = "''go hi{COLOR RED} now''" and maxWidth = 125
        and segs = "[]" and rest = "[]" and w = "[]" and st = fmt_init] tok
    by simp
  from r ok tok nb w1 w2 s show ?thesis by simp
qed

text \<open>
  Claim C2. \<open>FormatText\<close> returns an error exactly when the font identifier is not empty,
  is not the test identifier and is no key of the table; the output is then empty and the
  error carries the keys of the table. In every other case there is no error, and
  \<open>getNextWord\<close> itself never returns one.
\<close>

theorem C2_unknown_font_only_error:
  "(snd (FormatText fc t maxWidth fontID) \<noteq> None
      \<longleftrightarrow> fontID \<noteq> [] \<and> fontID \<noteq> testFontID \<and> fontID \<notin> dom (Fonts fc))
   \<and> (fontID \<noteq> [] \<and> fontID \<noteq> testFontID \<and> fontID \<notin> dom (Fonts fc)
      \<longrightarrow> FormatText fc t maxWidth fontID = ([], Some (UnknownFontID fontID (dom (Fonts fc)))))
   \<and> snd (snd (getNextWord t)) = None"
proof -
  obtain st' where "FormatText_loop fc (ReplaceAll_newline t) maxWidth fontID fmt_init 0 = Inr st'"
    using FormatText_loop_Inr by blast
  moreover obtain n w where "getNextWord t = (n, w, None)"
    using getNextWord_result [of t] by blast
  ultimately show ?thesis
    by (auto simp add: FormatText_def isFontIDValid_def dom_def)
qed

theorem C2_unknown_font_only_error_witness:
  "''3_none'' \<noteq> [] \<and> ''3_none'' \<noteq> testFontID \<and> ''3_none'' \<notin> dom (Fonts sampleConfig)
   \<and> FormatText sampleConfig ''ab cd'' 25 ''3_none''
       = ([], Some (UnknownFontID ''3_none'' {''1_latin'', ''2_bare''}))
   \<and> snd (FormatText sampleConfig ''ab cd'' 25 ''1_latin'') = None
   \<and> snd (FormatText sampleConfig ''ab cd'' 25 []) = None"
  using C2_unknown_font_only_error [of sampleConfig "''ab cd''" 25 "''3_none''"]
    C2_unknown_font_only_error [of sampleConfig "''ab cd''" 25 "''1_latin''"]
    C2_unknown_font_only_error [of sampleConfig "''ab cd''" 25 "[]"]
  by (auto simp add: sampleConfig_def testFontID_def)


text \<open>
  Claim C10. A break is inserted by the engine only when the line buffer is not empty: a
  word that meets an empty line buffer is put on the line whatever \<open>maxWidth\<close> is, zero
  and negative values included, and whenever the body inserts a break the line it closes
  is not empty. A text that is one word is returned as it is. On every input with an
  accepted font there is no error and every word read is a contiguous part of the output.
\<close>

theorem C10_oversized_word:
  assumes "\<not> (fontID \<noteq> [] \<and> fontID \<noteq> testFontID \<and> fontID \<notin> dom (Fonts fc))"
  shows "snd (FormatText fc t maxWidth fontID) = None
    \<and> (\<forall>w \<in> set (tokenize t). sublist w (fst (FormatText fc t maxWidth fontID)))
    \<and> (\<forall>w. tokenize t = [w] \<and> \<not> isLineBreak w \<longrightarrow> FormatText fc t maxWidth fontID = (w, None))
    \<and> (\<forall>st w. \<not> isLineBreak w \<and> curLineSb st = [] \<longrightarrow>
          formattedSb (fmt_body fc maxWidth fontID w st) = formattedSb st
          \<and> curLineSb (fmt_body fc maxWidth fontID w st)
              = (if \<not> isFirstWord st then [CHR '' ''] else []) @ w)
    \<and> (\<forall>st w. \<not> isLineBreak w
          \<and> formattedSb (fmt_body fc maxWidth fontID w st) \<noteq> formattedSb st \<longrightarrow>
          curLineSb st \<noteq> []
          \<and> formattedSb (fmt_body fc maxWidth fontID w st)
              = formattedSb st @ curLineSb st
                @ (if isFirstLine st then [bslash, CHR ''n''] else [bslash, CHR ''l'']) @ [newline]
          \<and> curLineSb (fmt_body fc maxWidth fontID w st) = w)"
proof (intro conjI)
  show "snd (FormatText fc t maxWidth fontID) = None"
    by (simp add: FormatText_tokens [OF assms])
  show "\<forall>w \<in> set (tokenize t). sublist w (fst (FormatText fc t maxWidth fontID))"
    by (simp add: FormatText_tokens [OF assms] token_sublist_fold)
  show "\<forall>w. tokenize t = [w] \<and> \<not> isLineBreak w \<longrightarrow> FormatText fc t maxWidth fontID = (w, None)"
    by (simp add: FormatText_tokens [OF assms] emitted_def fmt_body_def fmt_init_def Let_def)
  show "\<forall>st w. \<not> isLineBreak w \<and> curLineSb st = [] \<longrightarrow>
          formattedSb (fmt_body fc maxWidth fontID w st) = formattedSb st
          \<and> curLineSb (fmt_body fc maxWidth fontID w st)
              = (if \<not> isFirstWord st then [CHR '' ''] else []) @ w"
    by (simp add: fmt_body_def Let_def)
  show "\<forall>st w. \<not> isLineBreak w
          \<and> formattedSb (fmt_body fc maxWidth fontID w st) \<noteq> formattedSb st \<longrightarrow>
          curLineSb st \<noteq> []
          \<and> formattedSb (fmt_body fc maxWidth fontID w st)
              = formattedSb st @ curLineSb st
                @ (if isFirstLine st then [bslash, CHR ''n''] else [bslash, CHR ''l'']) @ [newline]
          \<and> curLineSb (fmt_body fc maxWidth fontID w st) = w"
    by (simp add: fmt_body_def Let_def)
qed

theorem C10_oversized_word_witness:
  "\<not> (testFontID \<noteq> [] \<and> testFontID \<noteq> testFontID \<and> testFontID \<notin> dom (Fonts emptyConfig))
   \<and> tokenize ''abcdefgh'' = [''abcdefgh'']
   \<and> \<not> isLineBreak ''abcdefgh''
   \<and> sint (getWordPixelWidth emptyConfig ''abcdefgh'' testFontID) = 80
   \<and> sint (- 5 :: go_int) = - 5
   \<and> FormatText emptyConfig ''abcdefgh'' (- 5) testFontID = (''abcdefgh'', None)
   \<and> FormatText emptyConfig ''abcdefgh'' 0 testFontID = (''abcdefgh'', None)
   \<and> sublist ''abcdefgh'' (fst (FormatText emptyConfig ''abcdefgh'' (- 5) testFontID))"
proof -
  have font: "\<not> (testFontID \<noteq> [] \<and> testFontID \<noteq> testFontID \<and> testFontID \<notin> dom (Fonts emptyConfig))"
    by simp
  have tok: "tokenize ''abcdefgh'' = [''abcdefgh'']"
    by (simp add: tok_eval gnw_eval)
  have nb: "\<not> isLineBreak ''abcdefgh''"
    by (simp add: isLineBreak_def)
  have w: "sint (getWordPixelWidth emptyConfig ''abcdefgh'' testFontID) = 80"
    by (simp add: fmt_eval runes_Nil runes_ascii)
  from C10_oversized_word [OF font, of "''abcdefgh''" "- 5"]
    C10_oversized_word [OF font, of "''abcdefgh''" 0] font tok nb w
  show ?thesis by simp
qed


text \<open>
  Claim C7. A word that starts with two backslashes loses the first one: on the three
  bytes backslash, backslash, \<open>a\<close> the tokenizer consumes all three and returns backslash,
  \<open>a\<close>, which is also what \<open>FormatText\<close> returns; on backslash, backslash, \<open>n\<close> it returns
  the break token backslash, \<open>n\<close>. The start of the word is moved to every backslash that
  comes before the first regular character. After a regular character both backslashes
  are kept, a single backslash before another character is kept, and a backslash with
  \<open>n\<close> ends the word read so far before the backslash or, at the start, is the token.
\<close>

theorem C7_leading_backslash_dropped:
  "getNextWord [bslash, bslash, CHR ''a''] = (3, [bslash, CHR ''a''], None)
   \<and> FormatText fc [bslash, bslash, CHR ''a''] maxWidth testFontID = ([bslash, CHR ''a''], None)
   \<and> tokenize [bslash, bslash, CHR ''a''] = [[bslash, CHR ''a'']]
   \<and> getNextWord [bslash, bslash, CHR ''n''] = (3, [bslash, CHR ''n''], None)
   \<and> getNextWord [CHR ''a'', bslash, bslash, CHR ''b'']
        = (4, [CHR ''a'', bslash, bslash, CHR ''b''], None)
   \<and> getNextWord [bslash, CHR ''a''] = (2, [bslash, CHR ''a''], None)
   \<and> getNextWord [CHR ''a'', CHR ''b'', bslash, CHR ''n'', CHR ''c''] = (2, ''ab'', None)
   \<and> getNextWord [bslash, CHR ''n'', CHR ''c''] = (2, [bslash, CHR ''n''], None)"
  by (simp add: gnw_eval tok_eval fmt_eval rune_eval)










end
